theory Spec2Isabelle
  imports Complex_Main
begin

section \<open>Data model\<close>

text \<open>
  Coordinates are pairs of Python floats, read here as reals: \<open>(x, y) = (lon, lat)\<close> inside
  the matcher, \<open>(lat, lon)\<close> in the resampler. A shapely \<open>LineString\<close> is its coordinate
  list; a matched line is \<open>None\<close> or a \<open>LineString\<close>.
\<close>

type_synonym coord = "real \<times> real"
type_synonym node = int
type_synonym net = string

datatype exn = ValueError | RuntimeError | IndexError | KeyError | GeometryError
  | LibraryError nat

text \<open>An edge attribute dictionary: the optional keys \<open>length\<close> and \<open>geometry\<close>.\<close>

record edge =
  elength :: "real option"
  egeometry :: "coord list option"

text \<open>
  A networkx \<open>MultiDiGraph\<close>: \<open>G.nodes[n]\<close> gives the node's \<open>x, y\<close>;
  \<open>G.get_edge_data(u, v)\<close> gives the parallel edges, keyed, in iteration order
  (the empty list when there is no edge).
\<close>

record graph =
  gnodes :: "node \<rightharpoonup> coord"
  gedges :: "node \<Rightarrow> node \<Rightarrow> (nat \<times> edge) list"

record region =
  region_id :: int
  mean_lat :: real
  mean_lon :: real

text \<open>
  The module \<open>config\<close> is imported by the sources but is not among them: its constants
  are parameters. The base radius and its increments are taken as integers, so that
  \<open>int(REGION_GRAPH_DIST_M + extra)\<close> is their sum.
\<close>

record config =
  REGION_GRAPH_DIST_M :: int
  DIST_EXPANDS :: "int list"
  NETWORK_TYPE_PRIMARY :: net
  NETWORK_TYPE_SECONDARY :: net
  GAP_BREAK_M :: real
  MAX_BRIDGE_TRY_M :: real
  MAX_END_TO_END_DIST_M :: real

text \<open>
  A download request sent to the graph provider (osmnx): around a centre \<open>(lat, lon)\<close> with
  a radius, or inside a bounding box \<open>north south east west\<close>.
\<close>

datatype request = PointReq coord int net | BBoxReq real real real real net

text \<open>
  The libraries the sources call (osmnx, networkx, geopy, shapely) are parameters. A download
  depends on the outside world: it is a function of the requests made before it and of the
  request itself.
\<close>

record env =
  graph_from_point :: "request list \<Rightarrow> coord \<Rightarrow> int \<Rightarrow> net \<Rightarrow> exn + graph"
  graph_from_bbox :: "request list \<Rightarrow> real \<Rightarrow> real \<Rightarrow> real \<Rightarrow> real \<Rightarrow> net \<Rightarrow> exn + graph"
  nearest_nodes :: "graph \<Rightarrow> real \<Rightarrow> real \<Rightarrow> exn + node"
  nearest_edges :: "graph \<Rightarrow> real \<Rightarrow> real \<Rightarrow> exn + (node \<times> node \<times> nat)"
  shortest_path :: "graph \<Rightarrow> node \<Rightarrow> node \<Rightarrow> exn + node list"
  geodesic :: "coord \<Rightarrow> coord \<Rightarrow> real"
  line_distance :: "coord list \<Rightarrow> coord list \<Rightarrow> real"

text \<open>
  The \<open>RegionGraphCache\<close> object (\<open>reg_df\<close>, \<open>cache\<close>) together with the log of the
  requests sent to the provider so far. The region id of a lookup is a Python value that
  may be \<open>None\<close>.
\<close>

record pstate =
  reg_df :: "region list"
  cache :: "(int option \<times> net \<times> int) \<rightharpoonup> graph"
  provider_log :: "request list"

section \<open>graph manager: cache, bounding-box graph, snapping\<close>

fun expand_loop ::
  "env \<Rightarrow> config \<Rightarrow> int option \<Rightarrow> net \<Rightarrow> real \<Rightarrow> real \<Rightarrow> int list \<Rightarrow> exn option \<Rightarrow> pstate
    \<Rightarrow> (exn + graph) \<times> pstate" where
  "expand_loop E C rid nt lat lon [] last_exc st =
     (Inl (case last_exc of Some e \<Rightarrow> e | None \<Rightarrow> RuntimeError), st)"
| "expand_loop E C rid nt lat lon (extra # rest) last_exc st =
     (let dist = REGION_GRAPH_DIST_M C + extra; key = (rid, nt, dist) in
      case cache st key of
        Some G \<Rightarrow> (Inr G, st)
      | None \<Rightarrow>
         (let st1 = st\<lparr>provider_log := provider_log st @ [PointReq (lat, lon) dist nt]\<rparr> in
          case graph_from_point E (provider_log st) (lat, lon) dist nt of
            Inr G \<Rightarrow> (Inr G, st1\<lparr>cache := (cache st1)(key \<mapsto> G)\<rparr>)
          | Inl e \<Rightarrow> expand_loop E C rid nt lat lon rest (Some e) st1))"

definition get_with_expand ::
  "env \<Rightarrow> config \<Rightarrow> pstate \<Rightarrow> int option \<Rightarrow> net \<Rightarrow> (exn + graph) \<times> pstate" where
  "get_with_expand E C st rid nt =
     (case filter (\<lambda>r. Some (region_id r) = rid) (reg_df st) of
        [] \<Rightarrow> (Inl ValueError, st)
      | row # _ \<Rightarrow>
          expand_loop E C rid nt (mean_lat row) (mean_lon row) (DIST_EXPANDS C) None st)"

text \<open>
  For stating properties: the requests of the whole ladder for a region row, in order, and
  the outcome of the \<open>i\<close>-th of them when all the earlier ones have been sent.
\<close>

definition ladder_requests :: "config \<Rightarrow> region \<Rightarrow> net \<Rightarrow> request list" where
  "ladder_requests C row nt =
     map (\<lambda>extra. PointReq (mean_lat row, mean_lon row) (REGION_GRAPH_DIST_M C + extra) nt)
       (DIST_EXPANDS C)"

definition ladder_attempt :: "env \<Rightarrow> config \<Rightarrow> pstate \<Rightarrow> region \<Rightarrow> net \<Rightarrow> nat \<Rightarrow> exn + graph" where
  "ladder_attempt E C st row nt i =
     graph_from_point E (provider_log st @ take i (ladder_requests C row nt))
       (mean_lat row, mean_lon row) (REGION_GRAPH_DIST_M C + DIST_EXPANDS C ! i) nt"

definition graph_from_segment_bbox ::
  "env \<Rightarrow> pstate \<Rightarrow> real \<Rightarrow> real \<Rightarrow> real \<Rightarrow> real \<Rightarrow> real \<Rightarrow> net \<Rightarrow> (exn + graph) \<times> pstate" where
  "graph_from_segment_bbox E st s_lat s_lon e_lat e_lon pad_m nt =
     (let pad_deg = pad_m / 111000;
          north = max s_lat e_lat + pad_deg;
          south = min s_lat e_lat - pad_deg;
          east = max s_lon e_lon + pad_deg;
          west = min s_lon e_lon - pad_deg
      in (graph_from_bbox E (provider_log st) north south east west nt,
          st\<lparr>provider_log := provider_log st @ [BBoxReq north south east west nt]\<rparr>))"

definition snap_by_edge :: "env \<Rightarrow> graph \<Rightarrow> real \<Rightarrow> real \<Rightarrow> exn + node" where
  "snap_by_edge E G lon lat =
     (case nearest_edges E G lon lat of
        Inl e \<Rightarrow> Inl e
      | Inr (u, v, k) \<Rightarrow>
         (case gnodes G u of
            None \<Rightarrow> Inl KeyError
          | Some (ux, uy) \<Rightarrow>
             (case gnodes G v of
                None \<Rightarrow> Inl KeyError
              | Some (vx, vy) \<Rightarrow>
                 (let du = geodesic E (lat, lon) (uy, ux);
                      dv = geodesic E (lat, lon) (vy, vx)
                  in Inr (if du \<le> dv then u else v)))))"

definition snap_nodes_hybrid :: "env \<Rightarrow> graph \<Rightarrow> real \<Rightarrow> real \<Rightarrow> exn + node" where
  "snap_nodes_hybrid E G lon lat =
     (case nearest_nodes E G lon lat of
        Inr n \<Rightarrow> Inr n
      | Inl _ \<Rightarrow>
         (case snap_by_edge E G lon lat of
            Inr n \<Rightarrow> Inr n
          | Inl _ \<Rightarrow> nearest_nodes E G lon lat))"

text \<open>\<open>LineString(coords)\<close>: shapely refuses a single coordinate.\<close>

definition LineString :: "coord list \<Rightarrow> exn + coord list" where
  "LineString cs = (if length cs = 1 then Inl GeometryError else Inr cs)"

definition safe_same_node_linestring :: "graph \<Rightarrow> node \<Rightarrow> exn + coord list" where
  "safe_same_node_linestring G n =
     (case gnodes G n of
        None \<Rightarrow> Inl KeyError
      | Some (x, y) \<Rightarrow> LineString [(x, y), (x, y)])"

section \<open>matcher.py: routing\<close>

fun snap_all :: "env \<Rightarrow> graph \<Rightarrow> coord list \<Rightarrow> exn + node list" where
  "snap_all E G [] = Inr []"
| "snap_all E G ((lon, lat) # ws) =
     (case snap_nodes_hybrid E G lon lat of
        Inl e \<Rightarrow> Inl e
      | Inr n \<Rightarrow> (case snap_all E G ws of Inl e \<Rightarrow> Inl e | Inr ns \<Rightarrow> Inr (n # ns)))"

text \<open>The loop that drops a node equal to the last one kept.\<close>

fun unique_loop :: "node list \<Rightarrow> node list \<Rightarrow> node list" where
  "unique_loop unique_nodes [] = unique_nodes"
| "unique_loop unique_nodes (n # ns) =
     unique_loop (if n \<noteq> last unique_nodes then unique_nodes @ [n] else unique_nodes) ns"

text \<open>
  \<open>min(edge_data, key = length or inf)\<close>: the first of the edges of least length, a
  missing length counting as infinite.
\<close>

definition length_less :: "real option \<Rightarrow> real option \<Rightarrow> bool" where
  "length_less a b =
     (case a of None \<Rightarrow> False | Some x \<Rightarrow> (case b of None \<Rightarrow> True | Some y \<Rightarrow> x < y))"

fun min_by_length :: "(nat \<times> edge) \<Rightarrow> (nat \<times> edge) list \<Rightarrow> (nat \<times> edge)" where
  "min_by_length best [] = best"
| "min_by_length best (x # xs) =
     min_by_length (if length_less (elength (snd x)) (elength (snd best)) then x else best) xs"

definition edge_coords :: "graph \<Rightarrow> node \<Rightarrow> node \<Rightarrow> edge \<Rightarrow> exn + coord list" where
  "edge_coords G u v ed =
     (case egeometry ed of
        Some cs \<Rightarrow> Inr cs
      | None \<Rightarrow>
         (case gnodes G u of
            None \<Rightarrow> Inl KeyError
          | Some pu \<Rightarrow> (case gnodes G v of None \<Rightarrow> Inl KeyError | Some pv \<Rightarrow> Inr [pu, pv])))"

definition extend_coords :: "coord list \<Rightarrow> coord list \<Rightarrow> exn + coord list" where
  "extend_coords full_coords ec =
     (if full_coords = [] then Inr (full_coords @ ec)
      else (case ec of
              [] \<Rightarrow> Inl IndexError
            | c # cs \<Rightarrow>
                if last full_coords = c then Inr (full_coords @ cs) else Inr (full_coords @ ec)))"

text \<open>The inner loop over \<open>zip(route_nodes[:-1], route_nodes[1:])\<close>.\<close>

fun walk_edges :: "graph \<Rightarrow> coord list \<Rightarrow> node list \<Rightarrow> exn + coord list" where
  "walk_edges G full_coords (u # v # rest) =
     (case gedges G u v of
        [] \<Rightarrow> walk_edges G full_coords (v # rest)
      | kd # kds \<Rightarrow>
         (case edge_coords G u v (snd (min_by_length kd kds)) of
            Inl e \<Rightarrow> Inl e
          | Inr ec \<Rightarrow>
             (case extend_coords full_coords ec of
                Inl e \<Rightarrow> Inl e
              | Inr full' \<Rightarrow> walk_edges G full' (v # rest))))"
| "walk_edges G full_coords _ = Inr full_coords"

text \<open>
  The loop over the consecutive pairs of \<open>unique_nodes\<close>; \<open>None\<close> is the
  \<open>return None\<close> of its \<open>except\<close>.
\<close>

fun route_pairs :: "env \<Rightarrow> graph \<Rightarrow> coord list \<Rightarrow> node list \<Rightarrow> coord list option" where
  "route_pairs E G full_coords (a # b # rest) =
     (case shortest_path E G a b of
        Inl e \<Rightarrow> None
      | Inr route_nodes \<Rightarrow>
         (case walk_edges G full_coords route_nodes of
            Inl e \<Rightarrow> None
          | Inr full' \<Rightarrow> route_pairs E G full' (b # rest)))"
| "route_pairs E G full_coords _ = Some full_coords"

definition unique_nodes_of :: "node list \<Rightarrow> node list" where
  "unique_nodes_of all_nodes = unique_loop [hd all_nodes] (tl all_nodes)"

definition route_on_graph_with_waypoints ::
  "env \<Rightarrow> graph \<Rightarrow> coord list \<Rightarrow> exn + coord list option" where
  "route_on_graph_with_waypoints E G waypoints =
     (if length waypoints < 2 then Inr None
      else case snap_all E G waypoints of
        Inl e \<Rightarrow> Inr None
      | Inr all_nodes \<Rightarrow>
         (let unique_nodes = unique_nodes_of all_nodes in
          if length unique_nodes < 2
          then (case safe_same_node_linestring G (hd unique_nodes) of
                  Inl e \<Rightarrow> Inl e | Inr l \<Rightarrow> Inr (Some l))
          else (case route_pairs E G [] unique_nodes of
                  None \<Rightarrow> Inr None
                | Some full_coords \<Rightarrow>
                   (if full_coords = [] then Inr None
                    else (case LineString full_coords of
                            Inl e \<Rightarrow> Inl e | Inr l \<Rightarrow> Inr (Some l))))))"

text \<open>\<open>line and len(line.coords) > 1\<close>: a geometry is truthy when it is not empty.\<close>

definition usable_line :: "exn + coord list option \<Rightarrow> coord list option" where
  "usable_line r =
     (case r of
        Inr (Some cs) \<Rightarrow> if cs \<noteq> [] \<and> 1 < length cs then Some cs else None
      | _ \<Rightarrow> None)"

fun tier_region ::
  "env \<Rightarrow> config \<Rightarrow> int option \<Rightarrow> coord list \<Rightarrow> net list \<Rightarrow> pstate \<Rightarrow> coord list option \<times> pstate"
  where
  "tier_region E C rid waypoints [] st = (None, st)"
| "tier_region E C rid waypoints (nt # nts) st =
     (case get_with_expand E C st rid nt of
        (Inl e, st1) \<Rightarrow> tier_region E C rid waypoints nts st1
      | (Inr G, st1) \<Rightarrow>
         (case usable_line (route_on_graph_with_waypoints E G waypoints) of
            Some l \<Rightarrow> (Some l, st1)
          | None \<Rightarrow> tier_region E C rid waypoints nts st1))"

fun tier_bbox ::
  "env \<Rightarrow> real \<Rightarrow> real \<Rightarrow> real \<Rightarrow> real \<Rightarrow> coord list \<Rightarrow> net list \<Rightarrow> pstate
    \<Rightarrow> coord list option \<times> pstate" where
  "tier_bbox E s_lat s_lon e_lat e_lon waypoints [] st = (None, st)"
| "tier_bbox E s_lat s_lon e_lat e_lon waypoints (nt # nts) st =
     (case graph_from_segment_bbox E st s_lat s_lon e_lat e_lon 800 nt of
        (Inl e, st1) \<Rightarrow> tier_bbox E s_lat s_lon e_lat e_lon waypoints nts st1
      | (Inr G, st1) \<Rightarrow>
         (case usable_line (route_on_graph_with_waypoints E G waypoints) of
            Some l \<Rightarrow> (Some l, st1)
          | None \<Rightarrow> tier_bbox E s_lat s_lon e_lat e_lon waypoints nts st1))"

definition route_between_points_with_fallback ::
  "env \<Rightarrow> config \<Rightarrow> pstate \<Rightarrow> int option \<Rightarrow> coord list \<Rightarrow> (exn + coord list option) \<times> pstate"
  where
  "route_between_points_with_fallback E C reg_cache rid waypoints =
     (let nets = [NETWORK_TYPE_PRIMARY C, NETWORK_TYPE_SECONDARY C] in
      case tier_region E C rid waypoints nets reg_cache of
        (Some l, st1) \<Rightarrow> (Inr (Some l), st1)
      | (None, st1) \<Rightarrow>
         (case waypoints of
            [] \<Rightarrow> (Inl IndexError, st1)
          | w # ws \<Rightarrow>
             (let (s_lon, s_lat) = w; (e_lon, e_lat) = last waypoints in
              case tier_bbox E s_lat s_lon e_lat e_lon waypoints nets st1 of
                (r, st2) \<Rightarrow> (Inr r, st2))))"

section \<open>matcher.py: the stitcher\<close>

record sstate =
  chunks :: "coord list list"
  merged_coords :: "coord list"
  prev_end :: "coord option"
  prev_rid :: "int option"
  reg_cache :: pstate
  bridge_log :: "(int option \<times> coord list) list"

definition EPS_CONNECT_M :: real where
  "EPS_CONNECT_M = 50"

definition flush_chunk :: "sstate \<Rightarrow> sstate" where
  "flush_chunk s =
     s\<lparr>chunks := (if 2 \<le> length (merged_coords s) then chunks s @ [merged_coords s]
                  else chunks s),
       merged_coords := []\<rparr>"

text \<open>\<open>flush_chunk(); merged_coords.extend(list(line.coords)); prev_end = ...; prev_rid = rid\<close>\<close>

definition start_new_chunk :: "coord list \<Rightarrow> int option \<Rightarrow> sstate \<Rightarrow> sstate" where
  "start_new_chunk cs rid s =
     (let s1 = flush_chunk s in
      s1\<lparr>merged_coords := merged_coords s1 @ cs, prev_end := Some (last cs), prev_rid := rid\<rparr>)"

text \<open>
  \<open>if merged_coords[-1] == xs[0]: merged_coords.extend(xs[1:]) else: merged_coords.extend(xs)\<close>,
  for a list \<open>xs\<close> of at least two coordinates; \<open>merged_coords[-1]\<close> raises on an empty list.
\<close>

definition extend_dedup :: "coord list \<Rightarrow> coord list \<Rightarrow> exn + coord list" where
  "extend_dedup merged xs =
     (if merged = [] then Inl IndexError
      else if last merged = hd xs then Inr (merged @ tl xs) else Inr (merged @ xs))"

definition append_line :: "coord list \<Rightarrow> int option \<Rightarrow> sstate \<Rightarrow> exn + sstate" where
  "append_line cs rid s =
     (case extend_dedup (merged_coords s) cs of
        Inl e \<Rightarrow> Inl e
      | Inr m \<Rightarrow> Inr (s\<lparr>merged_coords := m, prev_end := Some (last cs), prev_rid := rid\<rparr>))"

text \<open>\<open>prev_rid if prev_rid else rid\<close>: \<open>None\<close> and \<open>0\<close> are falsy.\<close>

definition rid_gap_of :: "int option \<Rightarrow> int option \<Rightarrow> int option" where
  "rid_gap_of p rid = (case p of None \<Rightarrow> rid | Some n \<Rightarrow> if n = 0 then rid else p)"

text \<open>
  The bridging attempt, written twice in the source (branches 4-2 and 5-1). The field
  \<open>bridge_log\<close> is a ghost: it records each call of the router made for a bridge.
\<close>

definition bridge_or_split ::
  "env \<Rightarrow> config \<Rightarrow> coord \<Rightarrow> coord list \<Rightarrow> int option \<Rightarrow> sstate \<Rightarrow> exn + sstate" where
  "bridge_or_split E C pe cs rid s =
     (let rid_gap = rid_gap_of (prev_rid s) rid;
          gap_waypoints = [(fst pe, snd pe), hd cs]
      in case route_between_points_with_fallback E C (reg_cache s) rid_gap gap_waypoints of
           (Inl e, st1) \<Rightarrow> Inl e
         | (Inr bridge, st1) \<Rightarrow>
            (let s1 = s\<lparr>reg_cache := st1,
                        bridge_log := bridge_log s @ [(rid_gap, gap_waypoints)]\<rparr> in
             case bridge of
               None \<Rightarrow> Inr (start_new_chunk cs rid s1)
             | Some bc \<Rightarrow>
                if bc \<noteq> [] \<and> 1 < length bc
                then (case extend_dedup (merged_coords s1) bc of
                        Inl e \<Rightarrow> Inl e
                      | Inr m \<Rightarrow> append_line cs rid (s1\<lparr>merged_coords := m\<rparr>))
                else Inr (start_new_chunk cs rid s1)))"

definition stitch_step ::
  "env \<Rightarrow> config \<Rightarrow> coord list option \<Rightarrow> int option \<Rightarrow> sstate \<Rightarrow> exn + sstate" where
  "stitch_step E C line rid s =
     (case line of
        None \<Rightarrow> Inr ((flush_chunk s)\<lparr>prev_end := None, prev_rid := None\<rparr>)
      | Some cs \<Rightarrow>
         if length cs < 2 then Inr ((flush_chunk s)\<lparr>prev_end := None, prev_rid := None\<rparr>)
         else (case prev_end s of
                 None \<Rightarrow>
                   Inr (s\<lparr>merged_coords := merged_coords s @ cs,
                          prev_end := Some (last cs), prev_rid := rid\<rparr>)
               | Some pe \<Rightarrow>
                  (let gap_m = geodesic E (snd pe, fst pe) (snd (hd cs), fst (hd cs));
                       end_to_end_m = geodesic E (snd pe, fst pe) (snd (last cs), fst (last cs))
                   in if MAX_END_TO_END_DIST_M C \<le> end_to_end_m
                      then Inr (start_new_chunk cs rid s)
                      else if GAP_BREAK_M C < gap_m
                      then (if MAX_BRIDGE_TRY_M C < gap_m
                            then Inr (start_new_chunk cs rid s)
                            else bridge_or_split E C pe cs rid s)
                      else if EPS_CONNECT_M < gap_m
                      then bridge_or_split E C pe cs rid s
                      else append_line cs rid s)))"

text \<open>
  The main loop, \<open>for i, line in enumerate(matched_lines)\<close>, from index \<open>i\<close>;
  \<open>seg_region_ids[i]\<close> raises past the end of the list.
\<close>

fun stitch_loop ::
  "env \<Rightarrow> config \<Rightarrow> int option list \<Rightarrow> nat \<Rightarrow> coord list option list \<Rightarrow> sstate \<Rightarrow> exn + sstate"
  where
  "stitch_loop E C seg_region_ids i [] s = Inr s"
| "stitch_loop E C seg_region_ids i (line # rest) s =
     (if i < length seg_region_ids
      then (case stitch_step E C line (seg_region_ids ! i) s of
              Inl e \<Rightarrow> Inl e
            | Inr s' \<Rightarrow> stitch_loop E C seg_region_ids (Suc i) rest s')
      else Inl IndexError)"

definition stitch_init :: "pstate \<Rightarrow> sstate" where
  "stitch_init rc =
     \<lparr>chunks = [], merged_coords = [], prev_end = None, prev_rid = None, reg_cache = rc,
       bridge_log = []\<rparr>"

definition stitch_and_merge_paths ::
  "env \<Rightarrow> config \<Rightarrow> pstate \<Rightarrow> coord list option list \<Rightarrow> int option list
    \<Rightarrow> exn + (coord list list \<times> pstate)" where
  "stitch_and_merge_paths E C rc matched_lines seg_region_ids =
     (case stitch_loop E C seg_region_ids 0 matched_lines (stitch_init rc) of
        Inl e \<Rightarrow> Inl e
      | Inr s \<Rightarrow> Inr (chunks (flush_chunk s), reg_cache s))"

section \<open>visualizer.py: grouping by connectivity\<close>

text \<open>
  The edges added to the graph over the line indices: the pairs \<open>i < j\<close> whose lines are
  closer than the tolerance.
\<close>

definition near_edges :: "env \<Rightarrow> coord list list \<Rightarrow> real \<Rightarrow> (nat \<times> nat) list" where
  "near_edges E lines tol_deg =
     concat (map (\<lambda>i. concat (map (\<lambda>j.
        if line_distance E (lines ! i) (lines ! j) < tol_deg then [(i, j)] else [])
        [Suc i ..< length lines])) [0 ..< length lines])"

text \<open>The neighbours of a node in the undirected graph with these edges.\<close>

definition adj :: "(nat \<times> nat) list \<Rightarrow> nat \<Rightarrow> nat list" where
  "adj es v = concat (map (\<lambda>(a, b). (if a = v then [b] else []) @ (if b = v then [a] else [])) es)"

text \<open>
  \<open>nx.connected_components\<close> is a library routine: for each node not seen yet, in node
  order, it yields the set found by a breadth-first search from it. The search is modelled
  level by level: \<open>for v in thislevel: for w in adj[v]: if w not in seen: seen.add(w);
  nextlevel.append(w)\<close>. A component is a Python set; it is given here as the list of its
  nodes in the order of discovery.
\<close>

fun scan_nbrs :: "nat list \<Rightarrow> nat list \<times> nat list \<Rightarrow> nat list \<times> nat list" where
  "scan_nbrs [] sn = sn"
| "scan_nbrs (w # ws) (seen, nextlevel) =
     scan_nbrs ws (if w \<in> set seen then (seen, nextlevel) else (seen @ [w], nextlevel @ [w]))"

fun scan_level :: "(nat \<times> nat) list \<Rightarrow> nat list \<Rightarrow> nat list \<times> nat list \<Rightarrow> nat list \<times> nat list" where
  "scan_level es [] sn = sn"
| "scan_level es (v # vs) sn = scan_level es vs (scan_nbrs (adj es v) sn)"

definition nodes_of :: "(nat \<times> nat) list \<Rightarrow> nat set" where
  "nodes_of es = fst ` set es \<union> snd ` set es"

function plain_bfs :: "(nat \<times> nat) list \<Rightarrow> nat list \<Rightarrow> nat list \<Rightarrow> nat list" where
  "plain_bfs es seen nextlevel =
     (if nextlevel = [] then seen
      else (case scan_level es nextlevel (seen, []) of
              (seen', next') \<Rightarrow> plain_bfs es seen' next'))"
  by pat_completeness auto
fun cc_loop :: "(nat \<times> nat) list \<Rightarrow> nat list \<Rightarrow> nat list \<Rightarrow> nat list list" where
  "cc_loop es [] seen = []"
| "cc_loop es (v # vs) seen =
     (if v \<in> set seen then cc_loop es vs seen
      else (let c = plain_bfs es [v] [v] in c # cc_loop es vs (seen @ c)))"

definition connected_components :: "nat \<Rightarrow> (nat \<times> nat) list \<Rightarrow> nat list list" where
  "connected_components n es = cc_loop es [0 ..< n] []"

definition component_indices :: "env \<Rightarrow> coord list list \<Rightarrow> real \<Rightarrow> nat list list" where
  "component_indices E lines tol_deg =
     connected_components (length lines) (near_edges E lines tol_deg)"

definition group_lines_by_connectivity ::
  "env \<Rightarrow> coord list list \<Rightarrow> real \<Rightarrow> coord list list list" where
  "group_lines_by_connectivity E lines tol_deg =
     (if lines = [] then []
      else map (map (\<lambda>i. lines ! i)) (component_indices E lines tol_deg))"

text \<open>
  For stating properties: the adjacency relation of the graph, two distinct lines closer than
  the tolerance (the distance being taken from the line of lower index, as the code does),
  and the symmetric relation of an edge list.
\<close>

definition touching :: "env \<Rightarrow> coord list list \<Rightarrow> real \<Rightarrow> nat \<Rightarrow> nat \<Rightarrow> bool" where
  "touching E lines tol_deg i j =
     (i < length lines \<and> j < length lines
      \<and> ((i < j \<and> line_distance E (lines ! i) (lines ! j) < tol_deg)
         \<or> (j < i \<and> line_distance E (lines ! j) (lines ! i) < tol_deg)))"

definition links :: "(nat \<times> nat) list \<Rightarrow> (nat \<times> nat) set" where
  "links es = set es \<union> (set es)\<inverse>"

section \<open>utils.py: resampling\<close>

text \<open>
  The \<open>while\<close> loop that places the samples of one segment \<open>p1, p2\<close>. It does not end
  for every step (with a step of zero it runs forever), so it is a partial function:
  \<open>None\<close> is a loop that never ends.
\<close>

partial_function (option) walk_segment ::
  "real \<Rightarrow> coord \<Rightarrow> coord \<Rightarrow> real \<Rightarrow> real \<Rightarrow> real \<Rightarrow> coord list \<Rightarrow> (real \<times> real \<times> coord list) option"
  where
  "walk_segment step_m p1 p2 seg_dist dist_since current_seg_traveled island_points =
     (if step_m \<le> dist_since + (seg_dist - current_seg_traveled)
      then (let need = step_m - dist_since;
                ratio = (if 0 < seg_dist then (current_seg_traveled + need) / seg_dist else 0);
                new_lat = fst p1 + (fst p2 - fst p1) * ratio;
                new_lon = snd p1 + (snd p2 - snd p1) * ratio
            in walk_segment step_m p1 p2 seg_dist 0 (current_seg_traveled + need)
                 (island_points @ [(new_lat, new_lon)]))
      else Some (dist_since, current_seg_traveled, island_points))"

text \<open>The loop over the consecutive points of one island, from a running distance.\<close>

fun walk_island ::
  "env \<Rightarrow> real \<Rightarrow> coord list \<Rightarrow> real \<Rightarrow> coord list \<Rightarrow> (real \<times> coord list) option" where
  "walk_island E step_m (p1 # p2 # rest) dist_since island_points =
     (let seg_dist = geodesic E p1 p2 in
      case walk_segment step_m p1 p2 seg_dist dist_since 0 island_points of
        None \<Rightarrow> None
      | Some (dist_since', traveled, island_points') \<Rightarrow>
          walk_island E step_m (p2 # rest) (dist_since' + (seg_dist - traveled)) island_points')"
| "walk_island E step_m _ dist_since island_points = Some (dist_since, island_points)"

text \<open>
  The body of the outer loop for one island: \<open>island_points = [segment[0]]\<close>,
  \<open>dist_since = 0.0\<close>, then the walk.
\<close>

definition resample_island :: "env \<Rightarrow> real \<Rightarrow> coord list \<Rightarrow> coord list option" where
  "resample_island E step_m segment =
     map_option snd (walk_island E step_m segment 0 [hd segment])"

fun islands_loop :: "env \<Rightarrow> real \<Rightarrow> coord list list \<Rightarrow> coord list \<Rightarrow> coord list option" where
  "islands_loop E step_m [] final_points = Some final_points"
| "islands_loop E step_m (segment # rest) final_points =
     (if segment = [] \<or> length segment < 2 then islands_loop E step_m rest final_points
      else (case resample_island E step_m segment of
              None \<Rightarrow> None
            | Some island_points \<Rightarrow> islands_loop E step_m rest (final_points @ island_points)))"

definition interpolate_continuous_coords_global ::
  "env \<Rightarrow> coord list list \<Rightarrow> real \<Rightarrow> coord list option" where
  "interpolate_continuous_coords_global E lines_coords step_m =
     islands_loop E step_m lines_coords []"

text \<open>For stating properties: the point at \<open>ratio\<close> between two points.\<close>

definition lerp :: "coord \<Rightarrow> coord \<Rightarrow> real \<Rightarrow> coord" where
  "lerp p1 p2 ratio = (fst p1 + (fst p2 - fst p1) * ratio, snd p1 + (snd p2 - snd p1) * ratio)"

section \<open>Invariant and sample environments\<close>

text \<open>The invariant of the main loop: a previous endpoint comes with a chunk in progress.\<close>

definition stitch_inv :: "sstate \<Rightarrow> bool" where
  "stitch_inv s = (prev_end s \<noteq> None \<longrightarrow> 2 \<le> length (merged_coords s))"

text \<open>
  An environment without network: every download and every library search fails. Distances
  are the flat approximation of 111 km per degree, along the axes.
\<close>

definition flat_metres :: "coord \<Rightarrow> coord \<Rightarrow> real" where
  "flat_metres p q = 111000 * (\<bar>fst p - fst q\<bar> + \<bar>snd p - snd q\<bar>)"

text \<open>
  A stand-in for the distance between two lines: the least distance between their vertices,
  along the axes, in degrees.
\<close>

definition vertex_gap :: "coord list \<Rightarrow> coord list \<Rightarrow> real" where
  "vertex_gap a b =
     (let ds = concat (map (\<lambda>p. map (\<lambda>q. \<bar>fst p - fst q\<bar> + \<bar>snd p - snd q\<bar>) b) a)
      in fold min (tl ds) (hd ds))"

definition offline_env :: env where
  "offline_env =
     \<lparr>graph_from_point = (\<lambda>h c d n. Inl (LibraryError 0)),
      graph_from_bbox = (\<lambda>h a b c d n. Inl (LibraryError 0)),
      nearest_nodes = (\<lambda>G x y. Inl (LibraryError 1)),
      nearest_edges = (\<lambda>G x y. Inl (LibraryError 1)),
      shortest_path = (\<lambda>G a b. Inl (LibraryError 2)),
      geodesic = flat_metres,
      line_distance = vertex_gap\<rparr>"

definition sample_config :: config where
  "sample_config =
     \<lparr>REGION_GRAPH_DIST_M = 5000, DIST_EXPANDS = [0, 3000, 6000],
      NETWORK_TYPE_PRIMARY = ''walk'', NETWORK_TYPE_SECONDARY = ''drive'',
      GAP_BREAK_M = 300, MAX_BRIDGE_TRY_M = 3000, MAX_END_TO_END_DIST_M = 5000\<rparr>"

definition empty_cache :: pstate where
  "empty_cache = \<lparr>reg_df = [], cache = Map.empty, provider_log = []\<rparr>"

text \<open>
  A small town: three nodes, a curved street from 1 to 2 and a straight one from 2 to 3.
  Only the walking network can be downloaded, and only around a point.
\<close>

definition town_graph :: graph where
  "town_graph =
     \<lparr>gnodes = [1 \<mapsto> (0, 0), 2 \<mapsto> (1/1000, 0), 3 \<mapsto> (1/1000, 4/1000)],
      gedges = (\<lambda>u v.
        if u = 1 \<and> v = 2
        then [(0, \<lparr>elength = Some 120,
                     egeometry = Some [(0, 0), (1/2000, 1/10000), (1/1000, 0)]\<rparr>)]
        else if u = 2 \<and> v = 3
        then [(0, \<lparr>elength = Some 444, egeometry = None\<rparr>)]
        else [])\<rparr>"

definition town_env :: env where
  "town_env =
     \<lparr>graph_from_point =
        (\<lambda>h c d n. if n = ''walk'' then Inr town_graph else Inl (LibraryError 0)),
      graph_from_bbox = (\<lambda>h a b c d n. Inl (LibraryError 0)),
      nearest_nodes =
        (\<lambda>G x y. if x < 1/2000 then Inr 1 else if y < 2/1000 then Inr 2 else Inr 3),
      nearest_edges = (\<lambda>G x y. Inl (LibraryError 1)),
      shortest_path =
        (\<lambda>G a b. if a = 1 \<and> b = 2 then Inr [1, 2]
                 else if a = 2 \<and> b = 3 then Inr [2, 3]
                 else if a = 1 \<and> b = 3 then Inr [1, 2, 3]
                 else Inl (LibraryError 2)),
      geodesic = flat_metres,
      line_distance = vertex_gap\<rparr>"

definition town_cache :: pstate where
  "town_cache =
     \<lparr>reg_df = [\<lparr>region_id = 1, mean_lat = 0, mean_lon = 0\<rparr>],
      cache = Map.empty, provider_log = []\<rparr>"

section \<open>The stitcher never fails and keeps its invariant\<close>

lemma tier_bbox_total:
  "\<exists>r st'. tier_bbox E a b c d ws nets st = (r, st')"
  by (cases "tier_bbox E a b c d ws nets st") simp

lemma router_returns:
  "ws \<noteq> [] \<Longrightarrow> \<exists>r st'. route_between_points_with_fallback E C st rid ws = (Inr r, st')"
  unfolding route_between_points_with_fallback_def Let_def
  by (cases ws) (auto split: prod.splits option.splits)

lemma start_new_inv: "2 \<le> length cs \<Longrightarrow> stitch_inv (start_new_chunk cs rid s)"
  by (simp add: stitch_inv_def start_new_chunk_def flush_chunk_def Let_def)

lemma extend_dedup_ok:
  "2 \<le> length m \<Longrightarrow> \<exists>m'. extend_dedup m xs = Inr m' \<and> length m \<le> length m'"
  by (auto simp: extend_dedup_def)

lemma append_line_inv:
  "2 \<le> length (merged_coords s) \<Longrightarrow>
   \<exists>s'. append_line cs rid s = Inr s' \<and> stitch_inv s'"
  using extend_dedup_ok [of "merged_coords s" cs]
  by (auto simp: append_line_def stitch_inv_def)

lemma bridge_or_split_inv:
  assumes "2 \<le> length (merged_coords s)" "2 \<le> length cs"
  shows "\<exists>s'. bridge_or_split E C pe cs rid s = Inr s' \<and> stitch_inv s'"
proof -
  let ?rg = "rid_gap_of (prev_rid s) rid"
  let ?wp = "[(fst pe, snd pe), hd cs]"
  obtain r st1 where r: "route_between_points_with_fallback E C (reg_cache s) ?rg ?wp = (Inr r, st1)"
    using router_returns [of ?wp] by blast
  let ?s1 = "s\<lparr>reg_cache := st1, bridge_log := bridge_log s @ [(?rg, ?wp)]\<rparr>"
  show ?thesis
  proof (cases "\<exists>bc. r = Some bc \<and> bc \<noteq> [] \<and> 1 < length bc")
    case True
    then obtain bc where bc: "r = Some bc" "bc \<noteq> []" "1 < length bc" by blast
    obtain m where m: "extend_dedup (merged_coords s) bc = Inr m"
      "length (merged_coords s) \<le> length m"
      using extend_dedup_ok [OF assms(1)] by blast
    have "2 \<le> length (merged_coords (?s1\<lparr>merged_coords := m\<rparr>))"
      using m assms by simp
    from append_line_inv [OF this, of cs rid]
    show ?thesis using r bc m by (simp add: bridge_or_split_def Let_def)
  next
    case False
    then show ?thesis using r start_new_inv [OF assms(2), of rid ?s1]
      by (auto simp: bridge_or_split_def Let_def split: option.splits)
  qed
qed

lemma stitch_step_inv:
  assumes "stitch_inv s"
  shows "\<exists>s'. stitch_step E C line rid s = Inr s' \<and> stitch_inv s'"
proof (cases "\<exists>cs. line = Some cs \<and> 2 \<le> length cs")
  case False
  then show ?thesis
    by (cases line) (auto simp: stitch_step_def stitch_inv_def)
next
  case True
  then obtain cs where cs: "line = Some cs" "2 \<le> length cs" by blast
  show ?thesis
  proof (cases "prev_end s")
    case None
    then show ?thesis using cs by (simp add: stitch_step_def stitch_inv_def)
  next
    case (Some pe)
    then have m: "2 \<le> length (merged_coords s)" using assms by (simp add: stitch_inv_def)
    show ?thesis
      using cs Some start_new_inv [OF cs(2), of rid s] append_line_inv [OF m, of cs rid]
        bridge_or_split_inv [OF m cs(2), of E C pe rid]
      by (auto simp: stitch_step_def Let_def)
  qed
qed

lemma stitch_loop_inv:
  "stitch_inv s \<Longrightarrow> i + length ls \<le> length rids \<Longrightarrow>
   \<exists>s'. stitch_loop E C rids i ls s = Inr s' \<and> stitch_inv s'"
proof (induction ls arbitrary: s i)
  case Nil
  then show ?case by simp
next
  case (Cons l ls)
  obtain s1 where s1: "stitch_step E C l (rids ! i) s = Inr s1" "stitch_inv s1"
    using stitch_step_inv [OF Cons.prems(1)] by blast
  from Cons.IH [OF s1(2), of "Suc i"] Cons.prems(2) s1(1)
  show ?case by simp
qed

lemma stitch_loop_append:
  "stitch_loop E C rids i (xs @ ys) s =
     (case stitch_loop E C rids i xs s of
        Inl e \<Rightarrow> Inl e
      | Inr s' \<Rightarrow> stitch_loop E C rids (i + length xs) ys s')"
  by (induction xs arbitrary: i s) (auto split: sum.splits)

lemma stitch_init_inv: "stitch_inv (stitch_init rc)"
  by (simp add: stitch_inv_def stitch_init_def)

lemma run_state_inv:
  "stitch_loop E C rids 0 pre (stitch_init rc) = Inr s \<Longrightarrow> stitch_inv s"
proof -
  assume run: "stitch_loop E C rids 0 pre (stitch_init rc) = Inr s"
  have "length pre \<le> length rids \<or> length rids < length pre" by arith
  then show ?thesis
  proof
    assume "length pre \<le> length rids"
    with stitch_loop_inv [OF stitch_init_inv, of 0 pre rids E C rc] run show ?thesis by auto
  next
    assume lt: "length rids < length pre"
    have "pre = take (length rids) pre @ drop (length rids) pre" by simp
    moreover obtain l ls where "drop (length rids) pre = l # ls"
      using lt by (cases "drop (length rids) pre") auto
    moreover obtain s1 where "stitch_loop E C rids 0 (take (length rids) pre) (stitch_init rc) = Inr s1"
      using stitch_loop_inv [OF stitch_init_inv, of 0 "take (length rids) pre" rids E C rc] lt by auto
    ultimately have "stitch_loop E C rids 0 pre (stitch_init rc) = Inl IndexError"
      using lt stitch_loop_append [of E C rids 0 "take (length rids) pre" "l # ls" "stitch_init rc"]
      by (simp add: min_def)
    with run show ?thesis by simp
  qed
qed

lemma run_snoc:
  "stitch_loop E C rids 0 pre s0 = Inr s \<Longrightarrow> length pre < length rids \<Longrightarrow>
   stitch_loop E C rids 0 (pre @ [l]) s0 = stitch_step E C l (rids ! length pre) s"
  by (simp add: stitch_loop_append split: sum.splits)

lemma extend_dedup_eq:
  "m \<noteq> [] \<Longrightarrow> extend_dedup m cs = Inr (m @ (if last m = hd cs then tl cs else cs))"
  by (simp add: extend_dedup_def)

section \<open>Evaluation on the sample environments\<close>

lemmas stitch_defs = stitch_step_def stitch_init_def append_line_def extend_dedup_def
  start_new_chunk_def flush_chunk_def EPS_CONNECT_M_def flat_metres_def
  offline_env_def sample_config_def empty_cache_def Let_def

lemmas route_defs = route_between_points_with_fallback_def get_with_expand_def
  graph_from_segment_bbox_def usable_line_def route_on_graph_with_waypoints_def
  snap_nodes_hybrid_def snap_by_edge_def unique_nodes_of_def safe_same_node_linestring_def
  LineString_def edge_coords_def extend_coords_def length_less_def bridge_or_split_def
  rid_gap_of_def

lemma first_line_run:
  "stitch_loop E C (r # rs) 0 [Some [(0, 0), (1/1000, 0)]] (stitch_init rc) =
     Inr \<lparr>chunks = [], merged_coords = [(0, 0), (1/1000, 0)], prev_end = Some (1/1000, 0),
          prev_rid = r, reg_cache = rc, bridge_log = []\<rparr>"
  by (simp add: stitch_step_def stitch_init_def)

section \<open>Properties of the stitcher\<close>

text \<open>
  Claim C1, as amended. Let the main loop have processed the lines \<open>pre\<close> and hold a
  previous endpoint \<open>pe\<close>, and let the next line have at least two coordinates. If the
  distance from \<open>pe\<close> to the start of the line is at most \<open>EPS_CONNECT_M\<close> (50 m) and
  at most \<open>GAP_BREAK_M\<close>, and the distance from \<open>pe\<close> to the end of the line is below
  \<open>MAX_END_TO_END_DIST_M\<close>, then the line is appended to the chunk in progress (its first
  coordinate dropped when it repeats the chunk's last one): no chunk is emitted, and neither
  the cache nor the log of bridge attempts changes.
\<close>

theorem small_gap_appends_without_bridge:
  assumes run: "stitch_loop E C rids 0 pre (stitch_init rc) = Inr s"
    and pe: "prev_end s = Some pe"
    and cs: "2 \<le> length cs"
    and i: "length pre < length rids"
    and gap: "geodesic E (snd pe, fst pe) (snd (hd cs), fst (hd cs)) \<le> EPS_CONNECT_M"
    and gb: "geodesic E (snd pe, fst pe) (snd (hd cs), fst (hd cs)) \<le> GAP_BREAK_M C"
    and e2e: "geodesic E (snd pe, fst pe) (snd (last cs), fst (last cs)) < MAX_END_TO_END_DIST_M C"
  shows "stitch_loop E C rids 0 (pre @ [Some cs]) (stitch_init rc) =
     Inr (s\<lparr>merged_coords :=
              merged_coords s @ (if last (merged_coords s) = hd cs then tl cs else cs),
            prev_end := Some (last cs), prev_rid := rids ! length pre\<rparr>)"
proof -
  have "2 \<le> length (merged_coords s)"
    using run_state_inv [OF run] pe by (simp add: stitch_inv_def)
  then have ne: "merged_coords s \<noteq> []" by auto
  have "stitch_step E C (Some cs) (rids ! length pre) s = append_line cs (rids ! length pre) s"
    using pe cs gap gb e2e by (simp add: stitch_step_def Let_def)
  then show ?thesis
    using run_snoc [OF run i] extend_dedup_eq [OF ne] by (simp add: append_line_def)
qed

text \<open>
  The amended claim C1 at a concrete input: a second line starting 22.2 m from the end of
  the first.
\<close>

theorem small_gap_appends_without_bridge_witness:
  "stitch_loop offline_env sample_config [Some 1, Some 1] 0
     [Some [(0, 0), (1/1000, 0)], Some [(1/1000, 1/5000), (2/1000, 0)]] (stitch_init empty_cache) =
   Inr \<lparr>chunks = [],
        merged_coords = [(0, 0), (1/1000, 0), (1/1000, 1/5000), (2/1000, 0)],
        prev_end = Some (2/1000, 0), prev_rid = Some 1, reg_cache = empty_cache,
        bridge_log = []\<rparr>"
  using small_gap_appends_without_bridge [where E = offline_env and C = sample_config
      and rids = "[Some 1, Some 1]" and rc = empty_cache and pe = "(1/1000, 0)"
      and cs = "[(1/1000, 1/5000), (2/1000, 0)]", OF first_line_run]
  by (simp add: stitch_defs)

text \<open>
  Claim C1 as stated fails. First run: the second line starts exactly where the first one
  ends (gap 0) but ends about 111 km away, beyond \<open>MAX_END_TO_END_DIST_M = 5000\<close>, and the
  output has two chunks. Second run: with \<open>GAP_BREAK_M = 30\<close> a gap of 44.4 m enters the
  bridging branch: a bridge route is requested and, as it fails, the chunk is split.
\<close>

theorem small_gap_counterexample:
  "geodesic offline_env (0, 1/1000) (0, 1/1000) \<le> EPS_CONNECT_M
   \<and> stitch_and_merge_paths offline_env sample_config empty_cache
       [Some [(0, 0), (1/1000, 0)], Some [(1/1000, 0), (1, 0)]] [Some 1, Some 1] =
     Inr ([[(0, 0), (1/1000, 0)], [(1/1000, 0), (1, 0)]], empty_cache)
   \<and> geodesic offline_env (0, 1/1000) (4/10000, 1/1000) \<le> EPS_CONNECT_M
   \<and> map_sum id bridge_log
       (stitch_loop offline_env (sample_config\<lparr>GAP_BREAK_M := 30\<rparr>) [Some 1, Some 1] 0
          [Some [(0, 0), (1/1000, 0)], Some [(1/1000, 4/10000), (2/1000, 0)]]
          (stitch_init empty_cache))
     = Inr [(Some 1, [(1/1000, 0), (1/1000, 4/10000)])]
   \<and> map_sum id chunks
       (stitch_loop offline_env (sample_config\<lparr>GAP_BREAK_M := 30\<rparr>) [Some 1, Some 1] 0
          [Some [(0, 0), (1/1000, 0)], Some [(1/1000, 4/10000), (2/1000, 0)]]
          (stitch_init empty_cache))
     = Inr [[(0, 0), (1/1000, 0)]]"
  by (simp add: stitch_and_merge_paths_def stitch_defs route_defs)

text \<open>
  Claim C2. Let the main loop have processed the lines \<open>pre\<close> and hold a previous
  endpoint \<open>pe\<close>, and let the next line have at least two coordinates. If the distance
  from \<open>pe\<close> to the end of the line is at least \<open>MAX_END_TO_END_DIST_M\<close>, the chunk
  in progress is emitted and a new chunk starts with the line, whatever the start gap is;
  neither the cache nor the log of bridge attempts changes.
\<close>

theorem end_to_end_forces_split:
  assumes run: "stitch_loop E C rids 0 pre (stitch_init rc) = Inr s"
    and pe: "prev_end s = Some pe"
    and cs: "2 \<le> length cs"
    and i: "length pre < length rids"
    and e2e: "MAX_END_TO_END_DIST_M C \<le> geodesic E (snd pe, fst pe) (snd (last cs), fst (last cs))"
  shows "stitch_loop E C rids 0 (pre @ [Some cs]) (stitch_init rc) =
     Inr (s\<lparr>chunks := chunks s @ [merged_coords s], merged_coords := cs,
            prev_end := Some (last cs), prev_rid := rids ! length pre\<rparr>)"
proof -
  have m: "2 \<le> length (merged_coords s)"
    using run_state_inv [OF run] pe by (simp add: stitch_inv_def)
  have "stitch_step E C (Some cs) (rids ! length pre) s = Inr (start_new_chunk cs (rids ! length pre) s)"
    using pe cs e2e by (simp add: stitch_step_def Let_def)
  then show ?thesis
    using run_snoc [OF run i] m by (simp add: start_new_chunk_def flush_chunk_def Let_def)
qed

text \<open>
  Claim C2 at a concrete input: the second line starts at the end of the first (gap 0)
  and ends about 111 km away.
\<close>

theorem end_to_end_forces_split_witness:
  "stitch_loop offline_env sample_config [Some 1, Some 2] 0
     [Some [(0, 0), (1/1000, 0)], Some [(1/1000, 0), (1, 0)]] (stitch_init empty_cache) =
   Inr \<lparr>chunks = [[(0, 0), (1/1000, 0)]],
        merged_coords = [(1/1000, 0), (1, 0)],
        prev_end = Some (1, 0), prev_rid = Some 2, reg_cache = empty_cache,
        bridge_log = []\<rparr>"
  using end_to_end_forces_split [where E = offline_env and C = sample_config
      and rids = "[Some 1, Some 2]" and rc = empty_cache and pe = "(1/1000, 0)"
      and cs = "[(1/1000, 0), (1, 0)]", OF first_line_run]
  by (simp add: stitch_defs)

text \<open>
  Claim C3, as amended. Let the main loop have processed the lines \<open>pre\<close> and hold a
  previous endpoint \<open>pe\<close>, and let the next line have at least two coordinates. If the
  distance from \<open>pe\<close> to the start of the line exceeds both \<open>MAX_BRIDGE_TRY_M\<close> and
  \<open>GAP_BREAK_M\<close>, the chunk in progress is emitted and a new chunk starts with the line;
  neither the cache nor the log of bridge attempts changes, although a graph is available.
\<close>

theorem far_gap_splits_without_bridge:
  assumes run: "stitch_loop E C rids 0 pre (stitch_init rc) = Inr s"
    and pe: "prev_end s = Some pe"
    and cs: "2 \<le> length cs"
    and i: "length pre < length rids"
    and far: "MAX_BRIDGE_TRY_M C < geodesic E (snd pe, fst pe) (snd (hd cs), fst (hd cs))"
    and gb: "GAP_BREAK_M C < geodesic E (snd pe, fst pe) (snd (hd cs), fst (hd cs))"
  shows "stitch_loop E C rids 0 (pre @ [Some cs]) (stitch_init rc) =
     Inr (s\<lparr>chunks := chunks s @ [merged_coords s], merged_coords := cs,
            prev_end := Some (last cs), prev_rid := rids ! length pre\<rparr>)"
proof -
  have m: "2 \<le> length (merged_coords s)"
    using run_state_inv [OF run] pe by (simp add: stitch_inv_def)
  have "stitch_step E C (Some cs) (rids ! length pre) s = Inr (start_new_chunk cs (rids ! length pre) s)"
    using pe cs far gb by (simp add: stitch_step_def Let_def)
  then show ?thesis
    using run_snoc [OF run i] m by (simp add: start_new_chunk_def flush_chunk_def Let_def)
qed

text \<open>
  The amended claim C3 at a concrete input: a start gap of 4440 m, with an end-to-end
  distance of 3330 m below the end-to-end threshold, in the town where routes exist.
\<close>

theorem far_gap_splits_without_bridge_witness:
  "stitch_loop town_env sample_config [Some 1, Some 1] 0
     [Some [(0, 0), (1/1000, 0)], Some [(41/1000, 0), (31/1000, 0)]] (stitch_init town_cache) =
   Inr \<lparr>chunks = [[(0, 0), (1/1000, 0)]],
        merged_coords = [(41/1000, 0), (31/1000, 0)],
        prev_end = Some (31/1000, 0), prev_rid = Some 1, reg_cache = town_cache,
        bridge_log = []\<rparr>"
  using far_gap_splits_without_bridge [where E = town_env and C = sample_config
      and rids = "[Some 1, Some 1]" and rc = town_cache and pe = "(1/1000, 0)"
      and cs = "[(41/1000, 0), (31/1000, 0)]", OF first_line_run]
  by (simp add: stitch_defs town_env_def)

text \<open>
  Claim C3 as stated fails when \<open>MAX_BRIDGE_TRY_M < GAP_BREAK_M\<close>: with the thresholds
  300 and 500 a start gap of 444 m exceeds \<open>MAX_BRIDGE_TRY_M\<close>, yet the test
  \<open>gap_m > GAP_BREAK_M\<close> fails, the branch for gaps above \<open>EPS_CONNECT_M\<close> requests a
  bridge, the bridge is found and the two lines end in one chunk.
\<close>

theorem far_gap_counterexample:
  "MAX_BRIDGE_TRY_M (sample_config\<lparr>GAP_BREAK_M := 500, MAX_BRIDGE_TRY_M := 300\<rparr>)
     < geodesic town_env (0, 1/1000) (4/1000, 1/1000)
   \<and> map_sum id bridge_log
       (stitch_loop town_env (sample_config\<lparr>GAP_BREAK_M := 500, MAX_BRIDGE_TRY_M := 300\<rparr>)
          [Some 1, Some 1] 0
          [Some [(0, 0), (1/1000, 0)], Some [(1/1000, 4/1000), (1/1000, 5/1000)]]
          (stitch_init town_cache))
     = Inr [(Some 1, [(1/1000, 0), (1/1000, 4/1000)])]
   \<and> map_sum id chunks
       (stitch_loop town_env (sample_config\<lparr>GAP_BREAK_M := 500, MAX_BRIDGE_TRY_M := 300\<rparr>)
          [Some 1, Some 1] 0
          [Some [(0, 0), (1/1000, 0)], Some [(1/1000, 4/1000), (1/1000, 5/1000)]]
          (stitch_init town_cache))
     = Inr []
   \<and> map_sum id merged_coords
       (stitch_loop town_env (sample_config\<lparr>GAP_BREAK_M := 500, MAX_BRIDGE_TRY_M := 300\<rparr>)
          [Some 1, Some 1] 0
          [Some [(0, 0), (1/1000, 0)], Some [(1/1000, 4/1000), (1/1000, 5/1000)]]
          (stitch_init town_cache))
     = Inr [(0, 0), (1/1000, 0), (1/1000, 4/1000), (1/1000, 5/1000)]"
  by (simp add: stitch_defs route_defs town_env_def town_cache_def town_graph_def)

text \<open>
  Claim C4, as amended. Let the main loop have processed the lines \<open>pre\<close>. If the next
  matched line is \<open>None\<close> or has fewer than two coordinates, the chunk in progress is
  emitted when it holds at least two coordinates and dropped otherwise, and the previous
  endpoint and the previous region are reset to \<open>None\<close>; a following line of at least two
  coordinates then starts a new chunk.
\<close>

theorem absent_line_flushes_and_resets:
  assumes run: "stitch_loop E C rids 0 pre (stitch_init rc) = Inr s"
    and bad: "line = None \<or> (\<exists>cs. line = Some cs \<and> length cs < 2)"
    and i: "Suc (length pre) < length rids"
    and nxt: "2 \<le> length cs2"
  shows "stitch_loop E C rids 0 (pre @ [line]) (stitch_init rc) =
     Inr (s\<lparr>chunks := (if 2 \<le> length (merged_coords s) then chunks s @ [merged_coords s]
                        else chunks s),
            merged_coords := [], prev_end := None, prev_rid := None\<rparr>)
    \<and> stitch_loop E C rids 0 (pre @ [line, Some cs2]) (stitch_init rc) =
     Inr (s\<lparr>chunks := (if 2 \<le> length (merged_coords s) then chunks s @ [merged_coords s]
                        else chunks s),
            merged_coords := cs2, prev_end := Some (last cs2),
            prev_rid := rids ! Suc (length pre)\<rparr>)"
proof -
  let ?s1 = "s\<lparr>chunks := (if 2 \<le> length (merged_coords s) then chunks s @ [merged_coords s]
                        else chunks s),
            merged_coords := [], prev_end := None, prev_rid := None\<rparr>"
  have step: "stitch_step E C line (rids ! length pre) s = Inr ?s1"
    using bad by (auto simp: stitch_step_def flush_chunk_def)
  have i': "length pre < length rids" using i by simp
  have one: "stitch_loop E C rids 0 (pre @ [line]) (stitch_init rc) = Inr ?s1"
    using run_snoc [OF run i'] step by simp
  have "length (pre @ [line]) < length rids" using i by simp
  from run_snoc [OF one this, of "Some cs2"] nxt
  have "stitch_loop E C rids 0 (pre @ [line, Some cs2]) (stitch_init rc) =
        stitch_step E C (Some cs2) (rids ! Suc (length pre)) ?s1" by simp
  then show ?thesis using one nxt by (simp add: stitch_step_def)
qed

text \<open>
  The amended claim C4 at a concrete input: a line, an absent line, a line.
\<close>

theorem absent_line_flushes_and_resets_witness:
  "stitch_loop offline_env sample_config [Some 1, Some 1, Some 2] 0
     [Some [(0, 0), (1/1000, 0)], None] (stitch_init empty_cache) =
   Inr \<lparr>chunks = [[(0, 0), (1/1000, 0)]], merged_coords = [],
        prev_end = None, prev_rid = None, reg_cache = empty_cache, bridge_log = []\<rparr>
   \<and> stitch_loop offline_env sample_config [Some 1, Some 1, Some 2] 0
     [Some [(0, 0), (1/1000, 0)], None, Some [(1/1000, 0), (2/1000, 0)]] (stitch_init empty_cache) =
   Inr \<lparr>chunks = [[(0, 0), (1/1000, 0)]], merged_coords = [(1/1000, 0), (2/1000, 0)],
        prev_end = Some (2/1000, 0), prev_rid = Some 2, reg_cache = empty_cache,
        bridge_log = []\<rparr>"
  using absent_line_flushes_and_resets [where E = offline_env and C = sample_config
      and rids = "[Some 1, Some 1, Some 2]" and rc = empty_cache and line = None
      and ?cs2.0 = "[(1/1000, 0), (2/1000, 0)]", OF first_line_run]
  by (simp add: stitch_defs)

text \<open>
  Claim C4 as stated fails for a zero-length line of two identical coordinates, the line
  \<open>safe_same_node_linestring\<close> builds: it has two coordinates, so the test
  \<open>len(line.coords) < 2\<close> lets it through, and it is appended to the chunk in progress
  without any flush or reset.
\<close>

theorem zero_length_line_counterexample:
  "stitch_loop offline_env sample_config [Some 1, Some 1] 0
     [Some [(0, 0), (1/1000, 0)], Some [(1/1000, 0), (1/1000, 0)]] (stitch_init empty_cache) =
   Inr \<lparr>chunks = [], merged_coords = [(0, 0), (1/1000, 0), (1/1000, 0)],
        prev_end = Some (1/1000, 0), prev_rid = Some 1, reg_cache = empty_cache,
        bridge_log = []\<rparr>"
  by (simp add: stitch_defs)

text \<open>
  Claim C10. When the list of region ids is as long as the list of matched lines, the main
  loop fails on no input, and in the state it reaches a previous endpoint other than
  \<open>None\<close> comes with at least two coordinates in \<open>merged_coords\<close>; this holds after
  every prefix of the input, each prefix being such an input. So \<open>merged_coords[-1]\<close> is
  never read on an empty list.
\<close>

theorem previous_endpoint_has_chunk:
  assumes "length lines \<le> length rids"
  shows "\<exists>s. stitch_loop E C rids 0 lines (stitch_init rc) = Inr s
          \<and> (prev_end s \<noteq> None \<longrightarrow> 2 \<le> length (merged_coords s))"
  using stitch_loop_inv [OF stitch_init_inv, of 0 lines rids E C rc] assms
  by (simp add: stitch_inv_def)

text \<open>
  Claim C10 at a concrete input, where the previous endpoint is set.
\<close>

theorem previous_endpoint_has_chunk_witness:
  "\<exists>s. stitch_loop offline_env sample_config [Some 1] 0 [Some [(0, 0), (1/1000, 0)]]
          (stitch_init empty_cache) = Inr s
       \<and> prev_end s \<noteq> None \<and> 2 \<le> length (merged_coords s)"
proof -
  obtain s where s: "stitch_loop offline_env sample_config [Some 1] 0 [Some [(0, 0), (1/1000, 0)]]
          (stitch_init empty_cache) = Inr s"
    and imp: "prev_end s \<noteq> None \<longrightarrow> 2 \<le> length (merged_coords s)"
    using previous_endpoint_has_chunk [of "[Some [(0, 0), (1/1000, 0)]]" "[Some 1]"
        offline_env sample_config empty_cache] by auto
  have "prev_end s \<noteq> None"
    using s first_line_run [of offline_env sample_config "Some 1" "[]" empty_cache] by auto
  with s imp show ?thesis by blast
qed

section \<open>Properties of the graph cache\<close>

lemma expand_loop_fails:
  "expand_loop E C rid nt lat lon exps last_exc st = (Inl e, st') \<Longrightarrow>
     provider_log st' = provider_log st
        @ map (\<lambda>x. PointReq (lat, lon) (REGION_GRAPH_DIST_M C + x) nt) exps
   \<and> cache st' = cache st \<and> reg_df st' = reg_df st
   \<and> (\<forall>x \<in> set exps. cache st (rid, nt, REGION_GRAPH_DIST_M C + x) = None)
   \<and> (\<forall>i < length exps. \<exists>err.
         graph_from_point E
           (provider_log st
              @ map (\<lambda>x. PointReq (lat, lon) (REGION_GRAPH_DIST_M C + x) nt) (take i exps))
           (lat, lon) (REGION_GRAPH_DIST_M C + exps ! i) nt = Inl err)
   \<and> (exps = [] \<longrightarrow> e = (case last_exc of Some x \<Rightarrow> x | None \<Rightarrow> RuntimeError))
   \<and> (exps \<noteq> [] \<longrightarrow>
         graph_from_point E
           (provider_log st
              @ map (\<lambda>x. PointReq (lat, lon) (REGION_GRAPH_DIST_M C + x) nt) (butlast exps))
           (lat, lon) (REGION_GRAPH_DIST_M C + last exps) nt = Inl e)"
proof (induction exps arbitrary: last_exc st)
  case Nil
  then show ?case by simp
next
  case (Cons x rest)
  let ?mk = "\<lambda>x. PointReq (lat, lon) (REGION_GRAPH_DIST_M C + x) nt"
  let ?st1 = "st\<lparr>provider_log := provider_log st @ [?mk x]\<rparr>"
  from Cons.prems have miss: "cache st (rid, nt, REGION_GRAPH_DIST_M C + x) = None"
    by (cases "cache st (rid, nt, REGION_GRAPH_DIST_M C + x)") (simp_all add: Let_def)
  from Cons.prems miss obtain e1 where
    e1: "graph_from_point E (provider_log st) (lat, lon) (REGION_GRAPH_DIST_M C + x) nt = Inl e1"
    by (cases "graph_from_point E (provider_log st) (lat, lon) (REGION_GRAPH_DIST_M C + x) nt")
       (simp_all add: Let_def)
  from Cons.prems miss e1
  have rec: "expand_loop E C rid nt lat lon rest (Some e1) ?st1 = (Inl e, st')"
    by (simp add: Let_def)
  note IH = Cons.IH [OF rec]
  have log: "provider_log st' = provider_log st @ map ?mk (x # rest)" using IH by simp
  have keep: "cache st' = cache st \<and> reg_df st' = reg_df st" using IH by simp
  have misses: "\<forall>y \<in> set (x # rest). cache st (rid, nt, REGION_GRAPH_DIST_M C + y) = None"
    using IH miss by simp
  have tried: "\<forall>i < length (x # rest). \<exists>err.
      graph_from_point E (provider_log st @ map ?mk (take i (x # rest)))
        (lat, lon) (REGION_GRAPH_DIST_M C + (x # rest) ! i) nt = Inl err"
  proof (intro allI impI)
    fix i assume i: "i < length (x # rest)"
    show "\<exists>err. graph_from_point E (provider_log st @ map ?mk (take i (x # rest)))
        (lat, lon) (REGION_GRAPH_DIST_M C + (x # rest) ! i) nt = Inl err"
    proof (cases i)
      case 0
      then show ?thesis using e1 by simp
    next
      case (Suc j)
      then have "j < length rest" using i by simp
      with IH obtain err where
        "graph_from_point E (provider_log ?st1 @ map ?mk (take j rest))
           (lat, lon) (REGION_GRAPH_DIST_M C + rest ! j) nt = Inl err" by blast
      then show ?thesis using Suc by simp
    qed
  qed
  have lst: "graph_from_point E (provider_log st @ map ?mk (butlast (x # rest)))
      (lat, lon) (REGION_GRAPH_DIST_M C + last (x # rest)) nt = Inl e"
  proof (cases "rest = []")
    case True
    then show ?thesis using IH e1 by simp
  next
    case False
    then show ?thesis using IH by simp
  qed
  show ?case using log keep misses tried lst by simp
qed

lemma expand_loop_cases:
  "(\<exists>G st'. expand_loop E C rid nt lat lon exps last_exc st = (Inr G, st'))
   \<or> (\<exists>e st'. expand_loop E C rid nt lat lon exps last_exc st = (Inl e, st'))"
proof (cases "expand_loop E C rid nt lat lon exps last_exc st")
  case (Pair r st')
  then show ?thesis by (cases r) auto
qed

text \<open>
  Claim C6, as amended. For a region id found in the region table, \<open>get_with_expand\<close>
  either returns a graph or raises; when it raises, every radius of the ladder has been
  requested from the provider, in order, each request failed, no radius was in the cache,
  the cache is unchanged, and the error is the one of the last request
  (\<open>RuntimeError\<close> when the ladder is empty). A cache hit at any radius, or a request of
  the ladder that succeeds, makes the call return a graph.
\<close>

theorem get_with_expand_raises_only_after_ladder:
  assumes row: "filter (\<lambda>r. Some (region_id r) = rid) (reg_df st) = row # rows"
  shows "((\<exists>G st'. get_with_expand E C st rid nt = (Inr G, st'))
          \<or> (\<exists>e st'. get_with_expand E C st rid nt = (Inl e, st')
                \<and> provider_log st' = provider_log st @ ladder_requests C row nt
                \<and> cache st' = cache st
                \<and> (\<forall>x \<in> set (DIST_EXPANDS C).
                      cache st (rid, nt, REGION_GRAPH_DIST_M C + x) = None)
                \<and> (\<forall>i < length (DIST_EXPANDS C). \<exists>err. ladder_attempt E C st row nt i = Inl err)
                \<and> (if DIST_EXPANDS C = [] then e = RuntimeError
                    else ladder_attempt E C st row nt (length (DIST_EXPANDS C) - 1) = Inl e)))
       \<and> (((\<exists>x \<in> set (DIST_EXPANDS C). cache st (rid, nt, REGION_GRAPH_DIST_M C + x) \<noteq> None)
            \<or> (\<exists>i < length (DIST_EXPANDS C). \<exists>G. ladder_attempt E C st row nt i = Inr G))
           \<longrightarrow> (\<exists>G st'. get_with_expand E C st rid nt = (Inr G, st')))"
proof -
  let ?exps = "DIST_EXPANDS C"
  let ?run = "expand_loop E C rid nt (mean_lat row) (mean_lon row) ?exps None st"
  have g: "get_with_expand E C st rid nt = ?run"
    using row by (simp add: get_with_expand_def)
  have fail: "provider_log st' = provider_log st @ ladder_requests C row nt
                \<and> cache st' = cache st
                \<and> (\<forall>x \<in> set ?exps. cache st (rid, nt, REGION_GRAPH_DIST_M C + x) = None)
                \<and> (\<forall>i < length ?exps. \<exists>err. ladder_attempt E C st row nt i = Inl err)
                \<and> (if ?exps = [] then e = RuntimeError
                    else ladder_attempt E C st row nt (length ?exps - 1) = Inl e)"
    if r: "?run = (Inl e, st')" for e st'
  proof -
    note F = expand_loop_fails [OF r]
    have last: "?exps \<noteq> [] \<Longrightarrow> ladder_attempt E C st row nt (length ?exps - 1) = Inl e"
      using F by (simp add: ladder_attempt_def ladder_requests_def butlast_conv_take
          last_conv_nth take_map)
    show ?thesis using F last
      by (simp add: ladder_attempt_def ladder_requests_def take_map)
  qed
  have first: "(\<exists>G st'. get_with_expand E C st rid nt = (Inr G, st'))
          \<or> (\<exists>e st'. get_with_expand E C st rid nt = (Inl e, st')
                \<and> provider_log st' = provider_log st @ ladder_requests C row nt
                \<and> cache st' = cache st
                \<and> (\<forall>x \<in> set ?exps. cache st (rid, nt, REGION_GRAPH_DIST_M C + x) = None)
                \<and> (\<forall>i < length ?exps. \<exists>err. ladder_attempt E C st row nt i = Inl err)
                \<and> (if ?exps = [] then e = RuntimeError
                    else ladder_attempt E C st row nt (length ?exps - 1) = Inl e))"
    using expand_loop_cases [of E C rid nt "mean_lat row" "mean_lon row" ?exps None st] fail g
    by metis
  have second: "\<exists>G st'. get_with_expand E C st rid nt = (Inr G, st')"
    if h: "(\<exists>x \<in> set ?exps. cache st (rid, nt, REGION_GRAPH_DIST_M C + x) \<noteq> None)
            \<or> (\<exists>i < length ?exps. \<exists>G. ladder_attempt E C st row nt i = Inr G)"
  proof (rule ccontr)
    assume "\<not> ?thesis"
    then obtain e st' where r: "?run = (Inl e, st')"
      using expand_loop_cases [of E C rid nt "mean_lat row" "mean_lon row" ?exps None st] g
      by auto
    from fail [OF r] h show False by auto
  qed
  show ?thesis using first second by blast
qed

text \<open>
  The amended claim C6 at concrete inputs: without network all three radii are requested
  and the last error is raised; in the town the first request succeeds.
\<close>

theorem get_with_expand_raises_only_after_ladder_witness:
  "get_with_expand offline_env sample_config town_cache (Some 1) ''walk'' =
     (Inl (LibraryError 0),
      town_cache\<lparr>provider_log := [PointReq (0, 0) 5000 ''walk'', PointReq (0, 0) 8000 ''walk'',
                                   PointReq (0, 0) 11000 ''walk'']\<rparr>)
   \<and> (\<exists>G st'. get_with_expand town_env sample_config town_cache (Some 1) ''walk'' = (Inr G, st'))"
proof -
  have row: "filter (\<lambda>r. Some (region_id r) = Some 1) (reg_df town_cache)
      = \<lparr>region_id = 1, mean_lat = 0, mean_lon = 0\<rparr> # []"
    by (simp add: town_cache_def)
  note off = get_with_expand_raises_only_after_ladder [where E = offline_env
      and C = sample_config and nt = "''walk''", OF row]
  note town = get_with_expand_raises_only_after_ladder [where E = town_env
      and C = sample_config and nt = "''walk''", OF row]
  have "ladder_attempt town_env sample_config town_cache
      \<lparr>region_id = 1, mean_lat = 0, mean_lon = 0\<rparr> ''walk'' 0 = Inr town_graph"
    by (simp add: ladder_attempt_def town_env_def)
  moreover have "0 < length (DIST_EXPANDS sample_config)"
    by (simp add: sample_config_def)
  ultimately have "\<exists>G st'. get_with_expand town_env sample_config town_cache (Some 1) ''walk''
      = (Inr G, st')"
    using town by blast
  moreover have "get_with_expand offline_env sample_config town_cache (Some 1) ''walk'' =
     (Inl (LibraryError 0),
      town_cache\<lparr>provider_log := [PointReq (0, 0) 5000 ''walk'', PointReq (0, 0) 8000 ''walk'',
                                   PointReq (0, 0) 11000 ''walk'']\<rparr>)"
    using off by (simp add: get_with_expand_def town_cache_def sample_config_def
        offline_env_def Let_def)
  ultimately show ?thesis by blast
qed

text \<open>
  Claim C6 as stated fails for a region id that the region table does not hold:
  \<open>ValueError\<close> is raised before any radius is tried.
\<close>

theorem unknown_region_counterexample:
  "get_with_expand town_env sample_config town_cache (Some 7) ''walk'' = (Inl ValueError, town_cache)
   \<and> DIST_EXPANDS sample_config = [0, 3000, 6000]
   \<and> provider_log town_cache = []"
  by (simp add: get_with_expand_def town_cache_def sample_config_def)

section \<open>Properties of the route finder and of the fallback router\<close>

lemma route_pairs_fails:
  "Suc i < length ns \<Longrightarrow> shortest_path E G (ns ! i) (ns ! Suc i) = Inl e \<Longrightarrow>
   route_pairs E G full ns = None"
proof (induction E G full ns arbitrary: i rule: route_pairs.induct)
  case (1 E G full a b rest)
  show ?case
  proof (cases i)
    case 0
    then show ?thesis using "1.prems" by simp
  next
    case (Suc j)
    then have j: "Suc j < length (b # rest)"
      and sp: "shortest_path E G ((b # rest) ! j) ((b # rest) ! Suc j) = Inl e"
      using "1.prems" by simp_all
    show ?thesis
    proof (cases "shortest_path E G a b")
      case (Inl x)
      then show ?thesis by simp
    next
      case (Inr rn)
      show ?thesis
      proof (cases "walk_edges G full rn")
        case (Inl x)
        then show ?thesis using Inr by simp
      next
        case (Inr full')
        from "1.IH" [OF \<open>shortest_path E G a b = Inr rn\<close> Inr j sp]
        show ?thesis using Inr \<open>shortest_path E G a b = Inr rn\<close> by simp
      qed
    qed
  qed
qed simp_all

lemmas town_defs = town_env_def town_graph_def town_cache_def sample_config_def
  snap_nodes_hybrid_def unique_nodes_of_def

lemma snap_all_same:
  "\<forall>w \<in> set ws. snap_nodes_hybrid E G (fst w) (snd w) = Inr n \<Longrightarrow>
   snap_all E G ws = Inr (replicate (length ws) n)"
  by (induction ws) auto

lemma unique_loop_same: "last u = n \<Longrightarrow> unique_loop u (replicate k n) = u"
  by (induction k) auto

lemma same_node_route:
  assumes "2 \<le> length ws"
    and "\<forall>w \<in> set ws. snap_nodes_hybrid E G (fst w) (snd w) = Inr n"
    and "gnodes G n = Some (x, y)"
  shows "route_on_graph_with_waypoints E G ws = Inr (Some [(x, y), (x, y)])"
proof -
  obtain k where k: "length ws = Suc k" using assms(1) by (cases ws) auto
  have u: "unique_nodes_of (replicate (length ws) n) = [n]"
    by (simp add: k unique_nodes_of_def unique_loop_same)
  show ?thesis
    using assms snap_all_same [OF assms(2)] u
    by (simp add: route_on_graph_with_waypoints_def safe_same_node_linestring_def
        LineString_def)
qed

lemma tier_region_first:
  "tier_region E C rid ws (nt # nts) st =
     (case tier_region E C rid ws [nt] st of
        (Some l, s1) \<Rightarrow> (Some l, s1)
      | (None, s1) \<Rightarrow> tier_region E C rid ws nts s1)"
  by (auto split: prod.splits sum.splits option.splits)

text \<open>
  Claim C5. When the waypoints snap to the nodes \<open>all_nodes\<close> and the shortest-path
  search fails for some pair of consecutive nodes of the deduplicated list, whichever pair
  it is and whatever the searches for the other pairs give,
  \<open>route_on_graph_with_waypoints\<close> returns \<open>None\<close>: no line made of the pairs that
  could be routed is returned.
\<close>

theorem failed_pair_search_gives_no_route:
  assumes snap: "snap_all E G waypoints = Inr all_nodes"
    and pair: "Suc i < length (unique_nodes_of all_nodes)"
    and fail: "shortest_path E G (unique_nodes_of all_nodes ! i)
                 (unique_nodes_of all_nodes ! Suc i) = Inl e"
  shows "route_on_graph_with_waypoints E G waypoints = Inr None"
proof -
  have "route_pairs E G [] (unique_nodes_of all_nodes) = None"
    using route_pairs_fails [OF pair fail] .
  moreover have "\<not> length (unique_nodes_of all_nodes) < 2" using pair by simp
  ultimately show ?thesis
    using snap by (simp add: route_on_graph_with_waypoints_def Let_def)
qed

text \<open>
  Claim C5 at a concrete input: three waypoints snapping to the nodes 1, 2, 1 of the town;
  the first pair has a route, the second has none, and the result is \<open>None\<close>.
\<close>

theorem failed_pair_search_gives_no_route_witness:
  "route_on_graph_with_waypoints town_env town_graph [(0, 0), (1/1000, 0), (0, 0)] = Inr None
   \<and> shortest_path town_env town_graph 1 2 = Inr [1, 2]"
proof -
  have snap: "snap_all town_env town_graph [(0, 0), (1/1000, 0), (0, 0)] = Inr [1, 2, 1]"
    by (simp add: town_defs)
  have u: "unique_nodes_of [1, 2, 1] = [1, 2, 1]" by (simp add: unique_nodes_of_def)
  have pair: "Suc 1 < length (unique_nodes_of [1, 2, 1])" by (simp add: u)
  have fail: "shortest_path town_env town_graph (unique_nodes_of [1, 2, 1] ! 1)
                 (unique_nodes_of [1, 2, 1] ! Suc 1) = Inl (LibraryError 2)"
    by (simp add: u town_env_def)
  from failed_pair_search_gives_no_route [OF snap pair fail]
  show ?thesis by (simp add: town_env_def)
qed

text \<open>
  Claim C9. Let a request have at least two waypoints, all snapping to one node \<open>n\<close> of
  the graph \<open>G\<close>, with coordinates \<open>(x, y)\<close>. If \<open>G\<close> is the region graph the cache
  returns for the primary network type, or the one it returns for the secondary type after
  the primary attempt gave no usable line, then
  \<open>route_between_points_with_fallback\<close> returns the line \<open>[(x, y), (x, y)]\<close>, not
  \<open>None\<close>. The stitcher does not treat that line as absent: with no previous endpoint it
  starts accumulating with it and takes \<open>(x, y)\<close> as previous endpoint.
\<close>

theorem same_node_request_returns_zero_length_line:
  assumes len: "2 \<le> length ws"
    and snap: "\<forall>w \<in> set ws. snap_nodes_hybrid E G (fst w) (snd w) = Inr n"
    and xy: "gnodes G n = Some (x, y)"
  shows "(get_with_expand E C st rid (NETWORK_TYPE_PRIMARY C) = (Inr G, st1) \<longrightarrow>
            route_between_points_with_fallback E C st rid ws
              = (Inr (Some [(x, y), (x, y)]), st1))
       \<and> (tier_region E C rid ws [NETWORK_TYPE_PRIMARY C] st = (None, st1)
            \<and> get_with_expand E C st1 rid (NETWORK_TYPE_SECONDARY C) = (Inr G, st2) \<longrightarrow>
            route_between_points_with_fallback E C st rid ws
              = (Inr (Some [(x, y), (x, y)]), st2))
       \<and> (prev_end s = None \<longrightarrow>
            stitch_step E C (Some [(x, y), (x, y)]) r s =
              Inr (s\<lparr>merged_coords := merged_coords s @ [(x, y), (x, y)],
                     prev_end := Some (x, y), prev_rid := r\<rparr>))"
proof -
  note R = same_node_route [OF len snap xy]
  have a: "route_between_points_with_fallback E C st rid ws = (Inr (Some [(x, y), (x, y)]), st1)"
    if "get_with_expand E C st rid (NETWORK_TYPE_PRIMARY C) = (Inr G, st1)"
    using that R by (simp add: route_between_points_with_fallback_def usable_line_def)
  have b: "route_between_points_with_fallback E C st rid ws = (Inr (Some [(x, y), (x, y)]), st2)"
    if "tier_region E C rid ws [NETWORK_TYPE_PRIMARY C] st = (None, st1)"
      and "get_with_expand E C st1 rid (NETWORK_TYPE_SECONDARY C) = (Inr G, st2)"
  proof -
    have "tier_region E C rid ws [NETWORK_TYPE_PRIMARY C, NETWORK_TYPE_SECONDARY C] st
        = tier_region E C rid ws [NETWORK_TYPE_SECONDARY C] st1"
      using that(1) tier_region_first [of E C rid ws "NETWORK_TYPE_PRIMARY C"
          "[NETWORK_TYPE_SECONDARY C]" st] by simp
    also have "\<dots> = (Some [(x, y), (x, y)], st2)"
      using that(2) R by (simp add: usable_line_def)
    finally show ?thesis by (simp add: route_between_points_with_fallback_def)
  qed
  have c: "stitch_step E C (Some [(x, y), (x, y)]) r s =
              Inr (s\<lparr>merged_coords := merged_coords s @ [(x, y), (x, y)],
                     prev_end := Some (x, y), prev_rid := r\<rparr>)"
    if "prev_end s = None"
    using that by (simp add: stitch_step_def)
  show ?thesis using a b c by blast
qed

text \<open>
  Claim C9 at concrete inputs: two waypoints near node 1 of the town, with the walking
  network available, and with only the driving network available.
\<close>

theorem same_node_request_returns_zero_length_line_witness:
  "fst (route_between_points_with_fallback town_env sample_config town_cache (Some 1)
          [(0, 0), (1/10000, 0)]) = Inr (Some [(0, 0), (0, 0)])
   \<and> fst (route_between_points_with_fallback
          (town_env\<lparr>graph_from_point :=
              (\<lambda>h c d n. if n = ''drive'' then Inr town_graph else Inl (LibraryError 0))\<rparr>)
          sample_config town_cache (Some 1) [(0, 0), (1/10000, 0)]) = Inr (Some [(0, 0), (0, 0)])
   \<and> stitch_step town_env sample_config (Some [(0, 0), (0, 0)]) (Some 1) (stitch_init town_cache) =
       Inr \<lparr>chunks = [], merged_coords = [(0, 0), (0, 0)], prev_end = Some (0, 0),
            prev_rid = Some 1, reg_cache = town_cache, bridge_log = []\<rparr>"
proof -
  let ?ws = "[(0, 0), (1/10000, 0)] :: coord list"
  let ?E2 = "town_env\<lparr>graph_from_point :=
              (\<lambda>h c d n. if n = ''drive'' then Inr town_graph else Inl (LibraryError 0))\<rparr>"
  have len: "2 \<le> length ?ws" by simp
  have snap: "\<forall>w \<in> set ?ws. snap_nodes_hybrid town_env town_graph (fst w) (snd w) = Inr 1"
    by (simp add: town_defs)
  have snap2: "\<forall>w \<in> set ?ws. snap_nodes_hybrid ?E2 town_graph (fst w) (snd w) = Inr 1"
    by (simp add: town_defs)
  have xy: "gnodes town_graph 1 = Some (0, 0)" by (simp add: town_graph_def)
  obtain st1 where g1: "get_with_expand town_env sample_config town_cache (Some 1)
      (NETWORK_TYPE_PRIMARY sample_config) = (Inr town_graph, st1)"
    by (simp add: get_with_expand_def town_defs Let_def)
  obtain st1' where t1: "tier_region ?E2 sample_config (Some 1) ?ws
      [NETWORK_TYPE_PRIMARY sample_config] town_cache = (None, st1')"
    and st1': "reg_df st1' = reg_df town_cache" "cache st1' = Map.empty"
    by (simp add: get_with_expand_def town_defs Let_def)
  obtain st2 where g2: "get_with_expand ?E2 sample_config st1' (Some 1)
      (NETWORK_TYPE_SECONDARY sample_config) = (Inr town_graph, st2)"
    using st1' by (simp add: get_with_expand_def town_defs Let_def)
  note A = same_node_request_returns_zero_length_line [OF len snap xy,
      where C = sample_config and st = town_cache and rid = "Some 1" and ?st1.0 = st1
      and s = "stitch_init town_cache" and r = "Some 1"]
  note B = same_node_request_returns_zero_length_line [OF len snap2 xy,
      where C = sample_config and st = town_cache and rid = "Some 1" and ?st1.0 = st1'
      and ?st2.0 = st2]
  have "prev_end (stitch_init town_cache) = None" by (simp add: stitch_init_def)
  then show ?thesis using A B g1 t1 g2 by (simp add: stitch_init_def)
qed

section \<open>Properties of the grouping\<close>

lemma set_adj: "set (adj es v) = {w. (v, w) \<in> set es \<or> (w, v) \<in> set es}"
  by (induction es) (auto simp: adj_def)

lemma scan_nbrs_add:
  "\<exists>add. scan_nbrs ws (seen, nxt) = (seen @ add, nxt @ add)
      \<and> set add = set ws - set seen \<and> (distinct seen \<longrightarrow> distinct (seen @ add))"
proof (induction ws arbitrary: seen nxt)
  case Nil
  show ?case by (rule exI [of _ "[]"]) simp
next
  case (Cons w ws)
  show ?case
  proof (cases "w \<in> set seen")
    case True
    from Cons.IH [of seen nxt] obtain add where
      "scan_nbrs ws (seen, nxt) = (seen @ add, nxt @ add)" "set add = set ws - set seen"
      "distinct seen \<longrightarrow> distinct (seen @ add)" by blast
    then show ?thesis using True by (intro exI [of _ add]) auto
  next
    case False
    from Cons.IH [of "seen @ [w]" "nxt @ [w]"] obtain add where
      a: "scan_nbrs ws (seen @ [w], nxt @ [w]) = ((seen @ [w]) @ add, (nxt @ [w]) @ add)"
      "set add = set ws - set (seen @ [w])"
      "distinct (seen @ [w]) \<longrightarrow> distinct ((seen @ [w]) @ add)" by blast
    show ?thesis using False a by (intro exI [of _ "w # add"]) auto
  qed
qed

lemma scan_level_add:
  "\<exists>add. scan_level es vs (seen, nxt) = (seen @ add, nxt @ add)
      \<and> set add = (\<Union>v \<in> set vs. set (adj es v)) - set seen
      \<and> (distinct seen \<longrightarrow> distinct (seen @ add))"
proof (induction vs arbitrary: seen nxt)
  case Nil
  show ?case by (rule exI [of _ "[]"]) simp
next
  case (Cons v vs)
  obtain a1 where a1: "scan_nbrs (adj es v) (seen, nxt) = (seen @ a1, nxt @ a1)"
    "set a1 = set (adj es v) - set seen" "distinct seen \<longrightarrow> distinct (seen @ a1)"
    using scan_nbrs_add [of "adj es v" seen nxt] by blast
  obtain a2 where a2: "scan_level es vs (seen @ a1, nxt @ a1) = ((seen @ a1) @ a2, (nxt @ a1) @ a2)"
    "set a2 = (\<Union>v \<in> set vs. set (adj es v)) - set (seen @ a1)"
    "distinct (seen @ a1) \<longrightarrow> distinct ((seen @ a1) @ a2)"
    using Cons.IH [of "seen @ a1" "nxt @ a1"] by blast
  show ?case using a1 a2 by (intro exI [of _ "a1 @ a2"]) auto
qed

lemma adj_nodes: "set (adj es v) \<subseteq> nodes_of es"
  by (auto simp: set_adj nodes_of_def intro: rev_image_eqI)

lemma bfs_decrease:
  assumes "scan_level es lv (seen, []) = (seen', next')" and "lv \<noteq> []"
  shows "((es, seen', next'), (es, seen, lv))
     \<in> measures [\<lambda>(es, seen, lv). card (nodes_of es - set seen), \<lambda>(es, seen, lv). length lv]"
proof -
  obtain add where a: "scan_level es lv (seen, []) = (seen @ add, [] @ add)"
    "set add = (\<Union>v \<in> set lv. set (adj es v)) - set seen"
    using scan_level_add [of es lv seen "[]"] by blast
  have fin: "finite (nodes_of es)" by (simp add: nodes_of_def)
  have sub: "set add \<subseteq> nodes_of es - set seen" using a(2) adj_nodes by auto
  from assms a have eq: "seen' = seen @ add" "next' = add" by auto
  show ?thesis
  proof (cases "add = []")
    case True
    then show ?thesis using eq assms by simp
  next
    case False
    then obtain w where w: "w \<in> set add" by (cases add) auto
    have "nodes_of es - set (seen @ add) \<subset> nodes_of es - set seen"
      using w sub by auto
    then have "card (nodes_of es - set (seen @ add)) < card (nodes_of es - set seen)"
      using fin by (intro psubset_card_mono) auto
    then show ?thesis using eq by simp
  qed
qed

termination plain_bfs
  apply (relation "measures [\<lambda>(es, seen, lv). card (nodes_of es - set seen),
                            \<lambda>(es, seen, lv). length lv]")
   apply simp
  apply (rule bfs_decrease)
   apply (rule sym, assumption)
  apply assumption
  done

declare plain_bfs.simps [simp del]

lemma links_sym: "sym (links es)"
  by (auto simp: links_def sym_def)

lemma adj_links: "set (adj es v) = links es `` {v}"
  by (auto simp: set_adj links_def)

lemma bfs_step:
  assumes "lv \<noteq> []"
  obtains add where "scan_level es lv (seen, []) = (seen @ add, add)"
    and "set add = links es `` set lv - set seen"
    and "distinct seen \<longrightarrow> distinct (seen @ add)"
    and "plain_bfs es seen lv = plain_bfs es (seen @ add) add"
proof -
  obtain add where a: "scan_level es lv (seen, []) = (seen @ add, [] @ add)"
    "set add = (\<Union>v \<in> set lv. set (adj es v)) - set seen"
    "distinct seen \<longrightarrow> distinct (seen @ add)"
    using scan_level_add [of es lv seen "[]"] by blast
  have "plain_bfs es seen lv = plain_bfs es (seen @ add) add"
    using assms a(1) by (subst plain_bfs.simps) simp
  moreover have "set add = links es `` set lv - set seen"
    using a(2) by (auto simp: adj_links)
  ultimately show ?thesis using a that by simp
qed

lemma plain_bfs_super: "set seen \<subseteq> set (plain_bfs es seen lv)"
proof (induction es seen lv rule: plain_bfs.induct)
  case (1 es seen lv)
  show ?case
  proof (cases "lv = []")
    case True
    then show ?thesis by (subst plain_bfs.simps) simp
  next
    case False
    from bfs_step [OF False, of es seen] obtain add where
      a: "scan_level es lv (seen, []) = (seen @ add, add)"
      "plain_bfs es seen lv = plain_bfs es (seen @ add) add" by metis
    from "1.IH" [OF False a(1) [symmetric]] a(2) show ?thesis by auto
  qed
qed

lemma plain_bfs_distinct: "distinct seen \<Longrightarrow> distinct (plain_bfs es seen lv)"
proof (induction es seen lv rule: plain_bfs.induct)
  case (1 es seen lv)
  show ?case
  proof (cases "lv = []")
    case True
    then show ?thesis using "1.prems" by (subst plain_bfs.simps) simp
  next
    case False
    from bfs_step [OF False, of es seen] obtain add where
      a: "scan_level es lv (seen, []) = (seen @ add, add)"
      "distinct seen \<longrightarrow> distinct (seen @ add)"
      "plain_bfs es seen lv = plain_bfs es (seen @ add) add" by metis
    from "1.IH" [OF False a(1) [symmetric]] a(2,3) "1.prems" show ?thesis by auto
  qed
qed

lemma plain_bfs_sound:
  "set lv \<subseteq> set seen \<Longrightarrow> set (plain_bfs es seen lv) \<subseteq> (links es)\<^sup>* `` set seen"
proof (induction es seen lv rule: plain_bfs.induct)
  case (1 es seen lv)
  show ?case
  proof (cases "lv = []")
    case True
    then show ?thesis by (subst plain_bfs.simps) auto
  next
    case False
    from bfs_step [OF False, of es seen] obtain add where
      a: "scan_level es lv (seen, []) = (seen @ add, add)"
      "set add = links es `` set lv - set seen"
      "plain_bfs es seen lv = plain_bfs es (seen @ add) add" by metis
    have "set add \<subseteq> set (seen @ add)" by simp
    from "1.IH" [OF False a(1) [symmetric] this]
    have "set (plain_bfs es seen lv) \<subseteq> (links es)\<^sup>* `` set (seen @ add)"
      using a(3) by simp
    also have "\<dots> \<subseteq> (links es)\<^sup>* `` set seen"
    proof
      fix w assume "w \<in> (links es)\<^sup>* `` set (seen @ add)"
      then obtain u where u: "u \<in> set seen \<union> set add" "(u, w) \<in> (links es)\<^sup>*" by auto
      show "w \<in> (links es)\<^sup>* `` set seen"
      proof (cases "u \<in> set seen")
        case True
        then show ?thesis using u by auto
      next
        case False
        then have "u \<in> links es `` set lv" using u a(2) by auto
        then obtain v where "v \<in> set lv" "(v, u) \<in> links es" by auto
        then have "v \<in> set seen" "(v, w) \<in> (links es)\<^sup>*"
          using "1.prems" u(2) by (auto intro: converse_rtrancl_into_rtrancl)
        then show ?thesis by auto
      qed
    qed
    finally show ?thesis .
  qed
qed

lemma plain_bfs_closed:
  "set lv \<subseteq> set seen \<Longrightarrow> \<forall>v \<in> set seen - set lv. links es `` {v} \<subseteq> set seen \<Longrightarrow>
   links es `` set (plain_bfs es seen lv) \<subseteq> set (plain_bfs es seen lv)"
proof (induction es seen lv rule: plain_bfs.induct)
  case (1 es seen lv)
  show ?case
  proof (cases "lv = []")
    case True
    then show ?thesis using "1.prems" by (subst (1 2) plain_bfs.simps) auto
  next
    case False
    from bfs_step [OF False, of es seen] obtain add where
      a: "scan_level es lv (seen, []) = (seen @ add, add)"
      "set add = links es `` set lv - set seen"
      "plain_bfs es seen lv = plain_bfs es (seen @ add) add" by metis
    have sub: "set add \<subseteq> set (seen @ add)" by simp
    have inv: "\<forall>v \<in> set (seen @ add) - set add. links es `` {v} \<subseteq> set (seen @ add)"
    proof
      fix v assume v: "v \<in> set (seen @ add) - set add"
      then have vs: "v \<in> set seen" by auto
      show "links es `` {v} \<subseteq> set (seen @ add)"
      proof (cases "v \<in> set lv")
        case True
        then show ?thesis using a(2) by auto
      next
        case False
        then show ?thesis using "1.prems"(2) vs by auto
      qed
    qed
    from "1.IH" [OF False a(1) [symmetric] sub inv] a(3) show ?thesis by simp
  qed
qed

lemma component_of_start: "set (plain_bfs es [v] [v]) = (links es)\<^sup>* `` {v}"
proof
  show "set (plain_bfs es [v] [v]) \<subseteq> (links es)\<^sup>* `` {v}"
    using plain_bfs_sound [of "[v]" "[v]" es] by simp
next
  let ?S = "set (plain_bfs es [v] [v])"
  have v: "v \<in> ?S" using plain_bfs_super [of "[v]" es "[v]"] by simp
  have cl: "links es `` ?S \<subseteq> ?S" using plain_bfs_closed [of "[v]" "[v]" es] by simp
  show "(links es)\<^sup>* `` {v} \<subseteq> ?S"
  proof
    fix w assume "w \<in> (links es)\<^sup>* `` {v}"
    then have "(v, w) \<in> (links es)\<^sup>*" by simp
    then show "w \<in> ?S"
    proof (induction rule: rtrancl_induct)
      case base
      show ?case by (rule v)
    next
      case (step y z)
      then show ?case using cl by auto
    qed
  qed
qed

lemma cc_loop_groups:
  "g \<in> set (cc_loop es vs seen) \<Longrightarrow>
   \<exists>v \<in> set vs. v \<notin> set seen \<and> set g = (links es)\<^sup>* `` {v}"
proof (induction vs arbitrary: seen)
  case Nil
  then show ?case by simp
next
  case (Cons v vs)
  show ?case
  proof (cases "v \<in> set seen")
    case True
    then show ?thesis using Cons by auto
  next
    case False
    then have "g = plain_bfs es [v] [v] \<or> g \<in> set (cc_loop es vs (seen @ plain_bfs es [v] [v]))"
      using Cons.prems by (simp add: Let_def)
    then show ?thesis
    proof
      assume "g = plain_bfs es [v] [v]"
      then show ?thesis using False component_of_start [of es v] by auto
    next
      assume "g \<in> set (cc_loop es vs (seen @ plain_bfs es [v] [v]))"
      from Cons.IH [OF this] show ?thesis by auto
    qed
  qed
qed

lemma cc_loop_cover:
  "v \<in> set vs \<Longrightarrow> v \<in> set seen \<or> (\<exists>g \<in> set (cc_loop es vs seen). v \<in> set g)"
proof (induction vs arbitrary: seen)
  case Nil
  then show ?case by simp
next
  case (Cons u vs)
  let ?c = "plain_bfs es [u] [u]"
  have uc: "u \<in> set ?c" using plain_bfs_super [of "[u]" es "[u]"] by simp
  show ?case
  proof (cases "u \<in> set seen")
    case True
    then show ?thesis using Cons by auto
  next
    case False
    show ?thesis
    proof (cases "v = u")
      case True
      then show ?thesis using False uc by (auto simp: Let_def)
    next
      case neq: False
      then have "v \<in> set vs" using Cons.prems by simp
      from Cons.IH [OF this, of "seen @ ?c"] show ?thesis using False by (auto simp: Let_def)
    qed
  qed
qed

lemma class_closed: "(links es)\<^sup>* `` ((links es)\<^sup>* `` {v}) \<subseteq> (links es)\<^sup>* `` {v}"
  by auto

lemma cc_loop_disjoint:
  "(links es)\<^sup>* `` set seen \<subseteq> set seen \<Longrightarrow>
   distinct (concat (cc_loop es vs seen)) \<and> set (concat (cc_loop es vs seen)) \<inter> set seen = {}"
proof (induction vs arbitrary: seen)
  case Nil
  then show ?case by simp
next
  case (Cons v vs)
  let ?R = "(links es)\<^sup>*"
  let ?c = "plain_bfs es [v] [v]"
  show ?case
  proof (cases "v \<in> set seen")
    case True
    then show ?thesis using Cons by simp
  next
    case False
    have c: "set ?c = ?R `` {v}" by (rule component_of_start)
    have dc: "distinct ?c" using plain_bfs_distinct [of "[v]" es "[v]"] by simp
    have symR: "sym ?R" using links_sym by (rule sym_rtrancl)
    have disj: "set ?c \<inter> set seen = {}"
    proof (rule ccontr)
      assume "set ?c \<inter> set seen \<noteq> {}"
      then obtain w where w: "(v, w) \<in> ?R" "w \<in> set seen" using c by auto
      then have "(w, v) \<in> ?R" using symR by (auto dest: symD)
      then have "v \<in> ?R `` set seen" using w(2) by auto
      then show False using Cons.prems False by auto
    qed
    have closed: "?R `` set (seen @ ?c) \<subseteq> set (seen @ ?c)"
    proof -
      have "?R `` set (seen @ ?c) = ?R `` set seen \<union> ?R `` (?R `` {v})"
        using c by auto
      also have "\<dots> \<subseteq> set seen \<union> ?R `` {v}"
        using Cons.prems class_closed [of es v] by blast
      finally show ?thesis using c by simp
    qed
    from Cons.IH [OF closed]
    have rest: "distinct (concat (cc_loop es vs (seen @ ?c)))"
      "set (concat (cc_loop es vs (seen @ ?c))) \<inter> set (seen @ ?c) = {}" by simp_all
    have "distinct (?c @ concat (cc_loop es vs (seen @ ?c)))"
      using dc rest by auto
    moreover have "set (?c @ concat (cc_loop es vs (seen @ ?c))) \<inter> set seen = {}"
      using disj rest by auto
    ultimately show ?thesis using False by (simp add: Let_def)
  qed
qed

lemma set_near_edges:
  "set (near_edges E lines tol) =
     {(i, j). i < j \<and> j < length lines \<and> line_distance E (lines ! i) (lines ! j) < tol}"
  by (auto simp: near_edges_def split: if_splits)

lemma links_near_edges:
  "links (near_edges E lines tol) = {(a, b). touching E lines tol a b}"
  by (auto simp: links_def set_near_edges touching_def)

lemma class_in_range:
  assumes "v < length lines" and "(v, w) \<in> {(a, b). touching E lines tol a b}\<^sup>*"
  shows "w < length lines"
  using assms(2,1) by (induction rule: rtrancl_induct) (auto simp: touching_def)

lemma components_partition:
  "distinct (concat (component_indices E lines tol))
   \<and> set (concat (component_indices E lines tol)) = {0 ..< length lines}"
proof -
  let ?es = "near_edges E lines tol"
  let ?gs = "cc_loop ?es [0 ..< length lines] []"
  have d: "distinct (concat ?gs)"
    using cc_loop_disjoint [of ?es "[]" "[0 ..< length lines]"] by simp
  have sup: "{0 ..< length lines} \<subseteq> set (concat ?gs)"
    using cc_loop_cover [of _ "[0 ..< length lines]" "[]" ?es] by auto
  have sub: "set (concat ?gs) \<subseteq> {0 ..< length lines}"
  proof
    fix w assume "w \<in> set (concat ?gs)"
    then obtain g where g: "g \<in> set ?gs" "w \<in> set g" by auto
    from cc_loop_groups [OF g(1)] obtain v where
      v: "v < length lines" "set g = (links ?es)\<^sup>* `` {v}" by auto
    then have "(v, w) \<in> {(a, b). touching E lines tol a b}\<^sup>*"
      using g(2) by (simp add: links_near_edges)
    from class_in_range [OF v(1) this] show "w \<in> {0 ..< length lines}" by simp
  qed
  show ?thesis using d sup sub
    by (auto simp: component_indices_def connected_components_def)
qed

lemma same_group_iff_connected:
  assumes "i < length lines"
  shows "(\<exists>g \<in> set (component_indices E lines tol). i \<in> set g \<and> j \<in> set g)
     \<longleftrightarrow> (i, j) \<in> {(a, b). touching E lines tol a b}\<^sup>*"
proof -
  let ?es = "near_edges E lines tol"
  let ?R = "{(a, b). touching E lines tol a b}\<^sup>*"
  have symR: "sym ?R"
    using links_sym [of ?es] unfolding links_near_edges by (rule sym_rtrancl)
  have fwd: "(i, j) \<in> ?R"
    if "\<exists>g \<in> set (component_indices E lines tol). i \<in> set g \<and> j \<in> set g"
  proof -
    from that obtain g where
      g: "g \<in> set (cc_loop ?es [0 ..< length lines] [])" "i \<in> set g" "j \<in> set g"
      by (auto simp: component_indices_def connected_components_def)
    from cc_loop_groups [OF g(1)] obtain v where "set g = (links ?es)\<^sup>* `` {v}" by auto
    then have vi: "(v, i) \<in> ?R" and vj: "(v, j) \<in> ?R"
      using g(2,3) by (simp_all add: links_near_edges)
    from vi have "(i, v) \<in> ?R" using symR by (auto dest: symD)
    then show ?thesis using vj by (rule rtrancl_trans)
  qed
  have bwd: "\<exists>g \<in> set (component_indices E lines tol). i \<in> set g \<and> j \<in> set g"
    if ij: "(i, j) \<in> ?R"
  proof -
    have "i \<in> set [0 ..< length lines]" using assms by simp
    from cc_loop_cover [OF this, of "[]" ?es] obtain g where
      g: "g \<in> set (cc_loop ?es [0 ..< length lines] [])" "i \<in> set g" by auto
    from cc_loop_groups [OF g(1)] obtain v where v: "set g = (links ?es)\<^sup>* `` {v}" by auto
    then have "(v, i) \<in> ?R" using g(2) by (simp add: links_near_edges)
    then have "(v, j) \<in> ?R" using ij by (rule rtrancl_trans)
    then have "j \<in> set g" using v by (simp add: links_near_edges)
    then show ?thesis
      using g by (auto simp: component_indices_def connected_components_def)
  qed
  show ?thesis using fwd bwd by blast
qed

lemma group_closed:
  assumes "g \<in> set (component_indices E lines tol)" and "i \<in> set g"
    and "(i, j) \<in> {(a, b). touching E lines tol a b}\<^sup>*"
  shows "j \<in> set g"
proof -
  let ?es = "near_edges E lines tol"
  have "g \<in> set (cc_loop ?es [0 ..< length lines] [])"
    using assms(1) by (simp add: component_indices_def connected_components_def)
  from cc_loop_groups [OF this] obtain v where v: "set g = (links ?es)\<^sup>* `` {v}" by auto
  then have "(v, i) \<in> {(a, b). touching E lines tol a b}\<^sup>*"
    using assms(2) by (simp add: links_near_edges)
  then have "(v, j) \<in> {(a, b). touching E lines tol a b}\<^sup>*"
    using assms(3) by (rule rtrancl_trans)
  then show ?thesis using v by (simp add: links_near_edges)
qed

lemma four_lines_components:
  "component_indices offline_env
     [[(0, 0), (1, 0)], [(1, 0), (2, 0)], [(2, 0), (3, 0)], [(10, 10), (11, 10)]] (1/1000000)
   = [[0, 1, 2], [3]]"
  by (simp add: component_indices_def connected_components_def near_edges_def offline_env_def
      vertex_gap_def upt_rec adj_def plain_bfs.simps)

text \<open>
  Claim C7. The groups returned are the lines at the indices of the components found by
  the search; these components partition the indices; two indices lie in one component
  exactly when they are linked by a chain of lines, each closer than the tolerance to the
  next; in particular, when A is closer than the tolerance to B and B to C, the three lie
  in one group, whatever the distance from A to C.
\<close>

theorem groups_are_connected_components:
  "group_lines_by_connectivity E lines tol
      = map (map (\<lambda>i. lines ! i)) (component_indices E lines tol)
   \<and> distinct (concat (component_indices E lines tol))
   \<and> set (concat (component_indices E lines tol)) = {0 ..< length lines}
   \<and> (\<forall>i < length lines. \<forall>j.
         (\<exists>g \<in> set (component_indices E lines tol). i \<in> set g \<and> j \<in> set g)
         \<longleftrightarrow> (i, j) \<in> {(a, b). touching E lines tol a b}\<^sup>*)
   \<and> (\<forall>a b c. touching E lines tol a b \<and> touching E lines tol b c \<longrightarrow>
         (\<exists>g \<in> set (component_indices E lines tol). a \<in> set g \<and> b \<in> set g \<and> c \<in> set g))"
proof -
  let ?gs = "component_indices E lines tol"
  let ?R = "{(a, b). touching E lines tol a b}\<^sup>*"
  have out: "group_lines_by_connectivity E lines tol = map (map (\<lambda>i. lines ! i)) ?gs"
    by (simp add: group_lines_by_connectivity_def component_indices_def
        connected_components_def)
  have iff: "\<forall>i < length lines. \<forall>j. (\<exists>g \<in> set ?gs. i \<in> set g \<and> j \<in> set g) \<longleftrightarrow> (i, j) \<in> ?R"
    using same_group_iff_connected by blast
  have three: "\<exists>g \<in> set ?gs. a \<in> set g \<and> b \<in> set g \<and> c \<in> set g"
    if ab: "touching E lines tol a b" and bc: "touching E lines tol b c" for a b c
  proof -
    have a: "a < length lines" using ab by (simp add: touching_def)
    have "(a, a) \<in> ?R" by simp
    then obtain g where g: "g \<in> set ?gs" "a \<in> set g"
      using same_group_iff_connected [OF a, of E tol a] by blast
    have rab: "(a, b) \<in> ?R" using ab by auto
    have "(b, c) \<in> ?R" using bc by auto
    with rab have rac: "(a, c) \<in> ?R" by (rule rtrancl_trans)
    have "b \<in> set g" using group_closed [OF g rab] .
    moreover have "c \<in> set g" using group_closed [OF g rac] .
    ultimately show ?thesis using g by blast
  qed
  have part: "distinct (concat ?gs)" "set (concat ?gs) = {0 ..< length lines}"
    using components_partition [of E lines tol] by simp_all
  show ?thesis
    apply (intro conjI)
        apply (rule out)
       apply (rule part(1))
      apply (rule part(2))
     apply (rule iff)
    using three apply blast
    done
qed

text \<open>
  Claim C7 at a concrete input: four lines with tolerance \<open>1e-6\<close>; the first touches the
  second and the second the third at a shared endpoint, the first and the third are one
  degree apart, the fourth is far away. The groups are the first three lines and the
  fourth.
\<close>

theorem groups_are_connected_components_witness:
  "touching offline_env
     [[(0, 0), (1, 0)], [(1, 0), (2, 0)], [(2, 0), (3, 0)], [(10, 10), (11, 10)]] (1/1000000) 0 1
   \<and> touching offline_env
     [[(0, 0), (1, 0)], [(1, 0), (2, 0)], [(2, 0), (3, 0)], [(10, 10), (11, 10)]] (1/1000000) 1 2
   \<and> \<not> touching offline_env
     [[(0, 0), (1, 0)], [(1, 0), (2, 0)], [(2, 0), (3, 0)], [(10, 10), (11, 10)]] (1/1000000) 0 2
   \<and> (\<exists>g \<in> set (component_indices offline_env
     [[(0, 0), (1, 0)], [(1, 0), (2, 0)], [(2, 0), (3, 0)], [(10, 10), (11, 10)]] (1/1000000)).
        0 \<in> set g \<and> 1 \<in> set g \<and> 2 \<in> set g)
   \<and> group_lines_by_connectivity offline_env
     [[(0, 0), (1, 0)], [(1, 0), (2, 0)], [(2, 0), (3, 0)], [(10, 10), (11, 10)]] (1/1000000)
     = [[[(0, 0), (1, 0)], [(1, 0), (2, 0)], [(2, 0), (3, 0)]], [[(10, 10), (11, 10)]]]"
proof -
  let ?L = "[[(0, 0), (1, 0)], [(1, 0), (2, 0)], [(2, 0), (3, 0)], [(10, 10), (11, 10)]]
    :: coord list list"
  note T = groups_are_connected_components [of offline_env ?L "1/1000000"]
  have t01: "touching offline_env ?L (1/1000000) 0 1"
    by (simp add: touching_def offline_env_def vertex_gap_def)
  have t12: "touching offline_env ?L (1/1000000) 1 2"
    by (simp add: touching_def offline_env_def vertex_gap_def)
  have t02: "\<not> touching offline_env ?L (1/1000000) 0 2"
    by (simp add: touching_def offline_env_def vertex_gap_def)
  from T t01 t12 have three: "\<exists>g \<in> set (component_indices offline_env ?L (1/1000000)).
        0 \<in> set g \<and> 1 \<in> set g \<and> 2 \<in> set g" by blast
  from T have "group_lines_by_connectivity offline_env ?L (1/1000000)
      = map (map (\<lambda>i. ?L ! i)) (component_indices offline_env ?L (1/1000000))" by blast
  then have out: "group_lines_by_connectivity offline_env ?L (1/1000000)
     = [[[(0, 0), (1, 0)], [(1, 0), (2, 0)], [(2, 0), (3, 0)]], [[(10, 10), (11, 10)]]]"
    by (simp add: four_lines_components)
  show ?thesis using t01 t12 t02 three out by blast
qed

section \<open>Properties of the resampler\<close>

lemma walk_segment_stop:
  "\<not> step_m \<le> ds + (sd - tr) \<Longrightarrow> walk_segment step_m p1 p2 sd ds tr pts = Some (ds, tr, pts)"
  by (subst walk_segment.simps) simp

lemma walk_segment_go:
  "step_m \<le> ds + (sd - tr) \<Longrightarrow>
   walk_segment step_m p1 p2 sd ds tr pts =
     walk_segment step_m p1 p2 sd 0 (tr + (step_m - ds))
       (pts @ [(fst p1 + (fst p2 - fst p1) * (if 0 < sd then (tr + (step_m - ds)) / sd else 0),
                snd p1 + (snd p2 - snd p1) * (if 0 < sd then (tr + (step_m - ds)) / sd else 0))])"
  by (subst walk_segment.simps) (simp add: Let_def)

lemma islands_loop_acc:
  "islands_loop E step_m xs final = map_option ((@) final) (islands_loop E step_m xs [])"
proof (induction xs arbitrary: final)
  case Nil
  show ?case by simp
next
  case (Cons seg xs)
  show ?case
  proof (cases "seg = [] \<or> length seg < 2")
    case True
    then show ?thesis using Cons.IH [of final] by simp
  next
    case False
    show ?thesis
    proof (cases "resample_island E step_m seg")
      case None
      then show ?thesis using False by simp
    next
      case (Some ip)
      have "islands_loop E step_m xs (final @ ip)
          = map_option ((@) (final @ ip)) (islands_loop E step_m xs [])"
        by (rule Cons.IH)
      moreover have "islands_loop E step_m xs ([] @ ip)
          = map_option ((@) ([] @ ip)) (islands_loop E step_m xs [])"
        by (rule Cons.IH)
      ultimately show ?thesis using False Some
        by (cases "islands_loop E step_m xs []") simp_all
    qed
  qed
qed

lemma islands_loop_append:
  "islands_loop E step_m (xs @ ys) final =
     Option.bind (islands_loop E step_m xs final) (islands_loop E step_m ys)"
  by (induction xs arbitrary: final) (auto split: option.splits)

lemma interpolate_append:
  "interpolate_continuous_coords_global E (xs @ ys) step_m =
     Option.bind (interpolate_continuous_coords_global E xs step_m)
       (\<lambda>a. map_option ((@) a) (interpolate_continuous_coords_global E ys step_m))"
proof -
  have "islands_loop E step_m (xs @ ys) [] =
      Option.bind (islands_loop E step_m xs []) (islands_loop E step_m ys)"
    by (rule islands_loop_append)
  also have "\<dots> = Option.bind (islands_loop E step_m xs [])
      (\<lambda>a. map_option ((@) a) (islands_loop E step_m ys []))"
  proof (cases "islands_loop E step_m xs []")
    case None
    then show ?thesis by simp
  next
    case (Some a)
    then show ?thesis using islands_loop_acc [of E step_m ys a] by simp
  qed
  finally show ?thesis by (simp add: interpolate_continuous_coords_global_def)
qed

lemma walk_segment_terminates:
  assumes "0 < step_m"
  shows "\<exists>r. walk_segment step_m p1 p2 sd ds tr pts = Some r"
proof -
  have "\<forall>ds tr pts. nat \<lfloor>(ds + (sd - tr)) / step_m\<rfloor> = n \<longrightarrow>
          (\<exists>r. walk_segment step_m p1 p2 sd ds tr pts = Some r)" for n
  proof (induction n)
    case 0
    show ?case
    proof (intro allI impI)
      fix ds tr pts assume n: "nat \<lfloor>(ds + (sd - tr)) / step_m\<rfloor> = 0"
      then have "(ds + (sd - tr)) / step_m < 1" by linarith
      then have "\<not> step_m \<le> ds + (sd - tr)" using assms by (simp add: field_simps)
      then show "\<exists>r. walk_segment step_m p1 p2 sd ds tr pts = Some r"
        by (simp add: walk_segment_stop)
    qed
  next
    case (Suc n)
    show ?case
    proof (intro allI impI)
      fix ds tr pts assume n: "nat \<lfloor>(ds + (sd - tr)) / step_m\<rfloor> = Suc n"
      show "\<exists>r. walk_segment step_m p1 p2 sd ds tr pts = Some r"
      proof (cases "step_m \<le> ds + (sd - tr)")
        case False
        then show ?thesis by (simp add: walk_segment_stop)
      next
        case True
        have "(0 + (sd - (tr + (step_m - ds)))) / step_m = (ds + (sd - tr)) / step_m - 1"
          using assms by (simp add: field_simps)
        then have "nat \<lfloor>(0 + (sd - (tr + (step_m - ds)))) / step_m\<rfloor> = n"
          using n by simp
        with Suc.IH obtain r where
          "walk_segment step_m p1 p2 sd 0 (tr + (step_m - ds))
             (pts @ [(fst p1 + (fst p2 - fst p1) * (if 0 < sd then (tr + (step_m - ds)) / sd else 0),
                snd p1 + (snd p2 - snd p1) * (if 0 < sd then (tr + (step_m - ds)) / sd else 0))])
           = Some r" by blast
        then show ?thesis by (subst walk_segment_go [OF True]) blast
      qed
    qed
  qed
  then show ?thesis by blast
qed

lemma walk_segment_result:
  assumes step: "0 < step_m" and sd: "0 \<le> sd"
  shows "0 \<le> ds \<Longrightarrow> ds < step_m \<Longrightarrow> 0 \<le> tr \<Longrightarrow> tr \<le> sd \<Longrightarrow>
     \<exists>ds' tr' add. walk_segment step_m p1 p2 sd ds tr pts = Some (ds', tr', pts @ add)
        \<and> 0 \<le> ds' + (sd - tr') \<and> ds' + (sd - tr') < step_m
        \<and> (\<forall>q \<in> set add. \<exists>t. 0 \<le> t \<and> t \<le> 1 \<and> q = lerp p1 p2 t)"
proof (induction "nat \<lfloor>(ds + (sd - tr)) / step_m\<rfloor>" arbitrary: ds tr pts)
  case 0
  then have "(ds + (sd - tr)) / step_m < 1" by linarith
  then have stop: "\<not> step_m \<le> ds + (sd - tr)" using step by (simp add: field_simps)
  have "walk_segment step_m p1 p2 sd ds tr pts = Some (ds, tr, pts @ [])"
    using walk_segment_stop [OF stop] by simp
  moreover have "0 \<le> ds + (sd - tr)" using 0 by simp
  moreover have "ds + (sd - tr) < step_m" using stop by simp
  ultimately show ?case by (intro exI [of _ ds] exI [of _ tr] exI [of _ "[]"]) simp
next
  case (Suc n)
  show ?case
  proof (cases "step_m \<le> ds + (sd - tr)")
    case False
    have "walk_segment step_m p1 p2 sd ds tr pts = Some (ds, tr, pts @ [])"
      using walk_segment_stop [OF False] by simp
    moreover have "0 \<le> ds + (sd - tr)" using Suc.prems by simp
    moreover have "ds + (sd - tr) < step_m" using False by simp
    ultimately show ?thesis by (intro exI [of _ ds] exI [of _ tr] exI [of _ "[]"]) simp
  next
    case True
    let ?tr = "tr + (step_m - ds)"
    let ?t = "if 0 < sd then ?tr / sd else 0"
    let ?q = "(fst p1 + (fst p2 - fst p1) * ?t, snd p1 + (snd p2 - snd p1) * ?t)"
    have tr0: "0 \<le> ?tr" using Suc.prems by simp
    have trsd: "?tr \<le> sd" using True by simp
    have t01: "0 \<le> ?t \<and> ?t \<le> 1" using tr0 trsd by (simp add: divide_le_eq)
    have "(0 + (sd - ?tr)) / step_m = (ds + (sd - tr)) / step_m - 1"
      using step by (simp add: field_simps)
    then have m: "n = nat \<lfloor>(0 + (sd - ?tr)) / step_m\<rfloor>"
      using Suc.hyps(2) by simp
    from Suc.hyps(1) [OF m _ step tr0 trsd, of "pts @ [?q]"]
    obtain ds' tr' add where
      r: "walk_segment step_m p1 p2 sd 0 ?tr (pts @ [?q]) = Some (ds', tr', (pts @ [?q]) @ add)"
      "0 \<le> ds' + (sd - tr')" "ds' + (sd - tr') < step_m"
      "\<forall>q \<in> set add. \<exists>t. 0 \<le> t \<and> t \<le> 1 \<and> q = lerp p1 p2 t"
      by auto
    have "walk_segment step_m p1 p2 sd ds tr pts = Some (ds', tr', pts @ (?q # add))"
      using walk_segment_go [OF True, of p1 p2 pts] r(1) by simp
    moreover have "\<forall>q \<in> set (?q # add). \<exists>t. 0 \<le> t \<and> t \<le> 1 \<and> q = lerp p1 p2 t"
    proof -
      have "?q = lerp p1 p2 ?t" by (simp add: lerp_def)
      then have "\<exists>t. 0 \<le> t \<and> t \<le> 1 \<and> ?q = lerp p1 p2 t" using t01 by blast
      then show ?thesis using r(4) by simp
    qed
    ultimately show ?thesis using r(2,3) by blast
  qed
qed

lemma walk_island_result:
  assumes step: "0 < step_m" and geo: "\<forall>p q. 0 \<le> geodesic E p q"
  shows "0 \<le> ds \<Longrightarrow> ds < step_m \<Longrightarrow>
     \<exists>ds' add. walk_island E step_m seg ds pts = Some (ds', pts @ add)
        \<and> (\<forall>q \<in> set add. \<exists>i t. Suc i < length seg \<and> 0 \<le> t \<and> t \<le> 1
               \<and> q = lerp (seg ! i) (seg ! Suc i) t)"
proof (induction seg arbitrary: ds pts)
  case Nil
  show ?case by (intro exI [of _ ds] exI [of _ "[]"]) simp
next
  case (Cons p1 tl)
  show ?case
  proof (cases tl)
    case Nil
    show ?thesis unfolding Nil by (intro exI [of _ ds] exI [of _ "[]"]) simp
  next
    case (Cons p2 rest)
    let ?sd = "geodesic E p1 p2"
    have sd: "0 \<le> ?sd" using geo by blast
    from walk_segment_result [OF step sd Cons.prems, of 0 p1 p2 pts] sd
    obtain ds' tr' a1 where
      w: "walk_segment step_m p1 p2 ?sd ds 0 pts = Some (ds', tr', pts @ a1)"
      "0 \<le> ds' + (?sd - tr')" "ds' + (?sd - tr') < step_m"
      "\<forall>q \<in> set a1. \<exists>t. 0 \<le> t \<and> t \<le> 1 \<and> q = lerp p1 p2 t" by auto
    from Cons.IH [OF w(2,3), of "pts @ a1"]
    obtain ds2 a2 where
      r: "walk_island E step_m tl (ds' + (?sd - tr')) (pts @ a1) = Some (ds2, (pts @ a1) @ a2)"
      "\<forall>q \<in> set a2. \<exists>i t. Suc i < length tl \<and> 0 \<le> t \<and> t \<le> 1
               \<and> q = lerp (tl ! i) (tl ! Suc i) t" by auto
    have res: "walk_island E step_m (p1 # tl) ds pts = Some (ds2, pts @ (a1 @ a2))"
      using w(1) r(1) Cons by (simp add: Let_def)
    have "\<exists>i t. Suc i < length (p1 # tl) \<and> 0 \<le> t \<and> t \<le> 1
               \<and> q = lerp ((p1 # tl) ! i) ((p1 # tl) ! Suc i) t"
      if q: "q \<in> set (a1 @ a2)" for q
    proof (cases "q \<in> set a1")
      case True
      with w(4) obtain t where "0 \<le> t" "t \<le> 1" "q = lerp p1 p2 t" by blast
      then show ?thesis using Cons by (intro exI [of _ 0] exI [of _ t]) simp
    next
      case False
      then have "q \<in> set a2" using q by simp
      with r(2) obtain i t where "Suc i < length tl" "0 \<le> t" "t \<le> 1"
        "q = lerp (tl ! i) (tl ! Suc i) t" by blast
      then show ?thesis by (intro exI [of _ "Suc i"] exI [of _ t]) simp
    qed
    then show ?thesis using res by blast
  qed
qed

lemma resample_island_result:
  assumes step: "0 < step_m" and geo: "\<forall>p q. 0 \<le> geodesic E p q"
  shows "\<exists>pts. resample_island E step_m seg = Some (hd seg # pts)
        \<and> (\<forall>q \<in> set pts. \<exists>i t. Suc i < length seg \<and> 0 \<le> t \<and> t \<le> 1
               \<and> q = lerp (seg ! i) (seg ! Suc i) t)"
  using walk_island_result [OF step geo, of 0 seg "[hd seg]"] step
  by (auto simp: resample_island_def)

lemma single_island:
  "interpolate_continuous_coords_global E [seg] step_m =
     (if length seg < 2 then Some [] else resample_island E step_m seg)"
  by (cases "resample_island E step_m seg")
     (auto simp: interpolate_continuous_coords_global_def)

lemma interpolate_concat:
  assumes step: "0 < step_m" and geo: "\<forall>p q. 0 \<le> geodesic E p q"
  shows "interpolate_continuous_coords_global E islands step_m =
     Some (concat (map (\<lambda>seg. the (interpolate_continuous_coords_global E [seg] step_m)) islands))"
proof (induction islands)
  case Nil
  show ?case by (simp add: interpolate_continuous_coords_global_def)
next
  case (Cons seg rest)
  have "\<exists>a. interpolate_continuous_coords_global E [seg] step_m = Some a"
    using resample_island_result [OF step geo, of seg] by (cases "length seg < 2") (auto simp: single_island)
  then obtain a where a: "interpolate_continuous_coords_global E [seg] step_m = Some a" ..
  have "interpolate_continuous_coords_global E ([seg] @ rest) step_m =
     Option.bind (interpolate_continuous_coords_global E [seg] step_m)
       (\<lambda>a. map_option ((@) a) (interpolate_continuous_coords_global E rest step_m))"
    by (rule interpolate_append)
  then show ?case using a Cons.IH by simp
qed

lemma walk_segment_extends:
  assumes "walk_segment step_m p1 p2 sd ds tr pts = Some r"
  shows "\<exists>add. snd (snd r) = pts @ add \<and> (\<forall>q \<in> set add. \<exists>t. q = lerp p1 p2 t)"
  using assms
proof (induction rule: walk_segment.raw_induct [rotated 1, consumes 1])
  case (1 f step_m p1 p2 sd ds tr pts r)
  show ?case
  proof (cases "step_m \<le> ds + (sd - tr)")
    case False
    then have "r = (ds, tr, pts)" using "1.hyps" by simp
    then show ?thesis by (intro exI [of _ "[]"]) simp
  next
    case True
    let ?t = "if 0 < sd then (tr + (step_m - ds)) / sd else 0"
    let ?q = "(fst p1 + (fst p2 - fst p1) * ?t, snd p1 + (snd p2 - snd p1) * ?t)"
    have "f step_m p1 p2 sd 0 (tr + (step_m - ds)) (pts @ [?q]) = Some r"
      using "1.hyps" True by (simp add: Let_def)
    from "1.IH" [OF this] obtain add where
      a: "snd (snd r) = (pts @ [?q]) @ add" "\<forall>q \<in> set add. \<exists>t. q = lerp p1 p2 t" by blast
    have "?q = lerp p1 p2 ?t" by (simp add: lerp_def)
    then have "\<forall>q \<in> set (?q # add). \<exists>t. q = lerp p1 p2 t" using a(2) by auto
    moreover have "snd (snd r) = pts @ (?q # add)" using a(1) by simp
    ultimately show ?thesis by blast
  qed
qed

lemma walk_island_extends:
  "walk_island E step_m seg ds pts = Some (ds', pts') \<Longrightarrow>
   \<exists>add. pts' = pts @ add
      \<and> (\<forall>q \<in> set add. \<exists>i t. Suc i < length seg \<and> q = lerp (seg ! i) (seg ! Suc i) t)"
proof (induction seg arbitrary: ds pts)
  case Nil
  then show ?case by simp
next
  case (Cons p1 tl)
  show ?case
  proof (cases tl)
    case Nil
    then show ?thesis using Cons.prems by simp
  next
    case (Cons p2 rest)
    let ?sd = "geodesic E p1 p2"
    from Cons.prems Cons obtain d1 t1 m1 where
      w: "walk_segment step_m p1 p2 ?sd ds 0 pts = Some (d1, t1, m1)"
      and r: "walk_island E step_m tl (d1 + (?sd - t1)) m1 = Some (ds', pts')"
      by (auto simp: Let_def split: option.splits)
    from walk_segment_extends [OF w] obtain a1 where
      a1: "m1 = pts @ a1" "\<forall>q \<in> set a1. \<exists>t. q = lerp p1 p2 t" by auto
    from Cons.IH [OF r] obtain a2 where
      a2: "pts' = m1 @ a2"
      "\<forall>q \<in> set a2. \<exists>i t. Suc i < length tl \<and> q = lerp (tl ! i) (tl ! Suc i) t" by blast
    have "\<exists>i t. Suc i < length (p1 # tl) \<and> q = lerp ((p1 # tl) ! i) ((p1 # tl) ! Suc i) t"
      if q: "q \<in> set (a1 @ a2)" for q
    proof (cases "q \<in> set a1")
      case True
      with a1(2) obtain t where "q = lerp p1 p2 t" by blast
      then show ?thesis using Cons by (intro exI [of _ 0] exI [of _ t]) simp
    next
      case False
      then have "q \<in> set a2" using q by simp
      with a2(2) obtain i t where "Suc i < length tl" "q = lerp (tl ! i) (tl ! Suc i) t"
        by blast
      then show ?thesis by (intro exI [of _ "Suc i"] exI [of _ t]) simp
    qed
    moreover have "pts' = pts @ (a1 @ a2)" using a1(1) a2(1) by simp
    ultimately show ?thesis by blast
  qed
qed

lemma resample_island_extends:
  assumes "resample_island E step_m seg = Some out"
  shows "\<exists>pts. out = hd seg # pts
      \<and> (\<forall>q \<in> set pts. \<exists>i t. Suc i < length seg \<and> q = lerp (seg ! i) (seg ! Suc i) t)"
proof -
  from assms obtain ds' where "walk_island E step_m seg 0 [hd seg] = Some (ds', out)"
    by (auto simp: resample_island_def)
  from walk_island_extends [OF this] show ?thesis by auto
qed


lemma flat_metres_nonneg: "0 \<le> flat_metres p q"
  by (simp add: flat_metres_def)

lemma one_island_example:
  "interpolate_continuous_coords_global offline_env [[(a, b), (a, b + 1/1000)]] 100
     = Some [(a, b), (a, b + 1/1110)]"
  by (simp add: interpolate_continuous_coords_global_def resample_island_def
      walk_segment_go walk_segment_stop offline_env_def flat_metres_def)


text \<open>
  Claim C8. For every step, the result for a list of islands is the result for its first
  part followed by the result for the rest (a loop that never ends on either leaves no
  result): nothing is carried from one island to the next. An island of fewer than two
  points gives nothing. Whenever an island of at least two points gets a result, its first
  point is the island's start point and every further point lies on the line through two
  consecutive points of that island. For a positive step and a distance that is never
  negative, the walk ends on every input, the result is the concatenation of the results of
  the islands taken alone, each starting from a running distance of zero, and every
  interpolated point lies between two consecutive points of its own island.
\<close>

theorem islands_are_resampled_independently:
  "interpolate_continuous_coords_global E (xs @ ys) step_m =
       Option.bind (interpolate_continuous_coords_global E xs step_m)
         (\<lambda>a. map_option ((@) a) (interpolate_continuous_coords_global E ys step_m))
   \<and> (\<forall>seg. length seg < 2 \<longrightarrow>
         interpolate_continuous_coords_global E [seg] step_m = Some [])
   \<and> (\<forall>seg out. 2 \<le> length seg
           \<and> interpolate_continuous_coords_global E [seg] step_m = Some out \<longrightarrow>
         (\<exists>pts. out = hd seg # pts
            \<and> (\<forall>q \<in> set pts. \<exists>i t. Suc i < length seg
                   \<and> q = lerp (seg ! i) (seg ! Suc i) t)))
   \<and> (0 < step_m \<and> (\<forall>p q. 0 \<le> geodesic E p q) \<longrightarrow>
         interpolate_continuous_coords_global E islands step_m =
           Some (concat (map (\<lambda>seg. the (interpolate_continuous_coords_global E [seg] step_m))
                   islands))
         \<and> (\<forall>seg. 2 \<le> length seg \<longrightarrow>
              (\<exists>pts. interpolate_continuous_coords_global E [seg] step_m = Some (hd seg # pts)
                 \<and> (\<forall>q \<in> set pts. \<exists>i t. Suc i < length seg \<and> 0 \<le> t \<and> t \<le> 1
                        \<and> q = lerp (seg ! i) (seg ! Suc i) t))))"
proof -
  have a: "interpolate_continuous_coords_global E (xs @ ys) step_m =
       Option.bind (interpolate_continuous_coords_global E xs step_m)
         (\<lambda>a. map_option ((@) a) (interpolate_continuous_coords_global E ys step_m))"
    by (rule interpolate_append)
  have b: "\<forall>seg. length seg < 2 \<longrightarrow>
         interpolate_continuous_coords_global E [seg] step_m = Some []"
    by (simp add: single_island)
  have c: "\<forall>seg out. 2 \<le> length seg
           \<and> interpolate_continuous_coords_global E [seg] step_m = Some out \<longrightarrow>
         (\<exists>pts. out = hd seg # pts
            \<and> (\<forall>q \<in> set pts. \<exists>i t. Suc i < length seg
                   \<and> q = lerp (seg ! i) (seg ! Suc i) t))"
  proof (intro allI impI)
    fix seg out
    assume h: "2 \<le> length seg
           \<and> interpolate_continuous_coords_global E [seg] step_m = Some out"
    then have "resample_island E step_m seg = Some out"
      by (auto simp: single_island split: if_splits)
    then show "\<exists>pts. out = hd seg # pts
            \<and> (\<forall>q \<in> set pts. \<exists>i t. Suc i < length seg
                   \<and> q = lerp (seg ! i) (seg ! Suc i) t)"
      by (rule resample_island_extends)
  qed
  have d: "interpolate_continuous_coords_global E islands step_m =
           Some (concat (map (\<lambda>seg. the (interpolate_continuous_coords_global E [seg] step_m))
                   islands))
         \<and> (\<forall>seg. 2 \<le> length seg \<longrightarrow>
              (\<exists>pts. interpolate_continuous_coords_global E [seg] step_m = Some (hd seg # pts)
                 \<and> (\<forall>q \<in> set pts. \<exists>i t. Suc i < length seg \<and> 0 \<le> t \<and> t \<le> 1
                        \<and> q = lerp (seg ! i) (seg ! Suc i) t)))"
    if step: "0 < step_m" and geo: "\<forall>p q. 0 \<le> geodesic E p q"
  proof (intro conjI allI impI)
    show "interpolate_continuous_coords_global E islands step_m =
           Some (concat (map (\<lambda>seg. the (interpolate_continuous_coords_global E [seg] step_m))
                   islands))"
      by (rule interpolate_concat [OF step geo])
  next
    fix seg :: "coord list" assume "2 \<le> length seg"
    then have "interpolate_continuous_coords_global E [seg] step_m = resample_island E step_m seg"
      by (simp add: single_island)
    then show "\<exists>pts. interpolate_continuous_coords_global E [seg] step_m = Some (hd seg # pts)
              \<and> (\<forall>q \<in> set pts. \<exists>i t. Suc i < length seg \<and> 0 \<le> t \<and> t \<le> 1
                     \<and> q = lerp (seg ! i) (seg ! Suc i) t)"
      using resample_island_result [OF step geo, of seg] by simp
  qed
  show ?thesis
    apply (intro conjI)
       apply (rule a)
      apply (rule b)
     apply (rule c)
    using d apply blast
    done
qed


text \<open>
  Claim C8 at a concrete input, with a step of 100 m: two islands of 111 m and, between
  them, a single point. Each island gives its start point and one sample 100 m further;
  the 11 m left over at the end of the first island are not carried into the second.
\<close>

theorem islands_are_resampled_independently_witness:
  "interpolate_continuous_coords_global offline_env
     [[(0, 0), (0, 1/1000)], [(5, 5)], [(1, 1), (1, 1 + 1/1000)]] 100
   = Some [(0, 0), (0, 1/1110), (1, 1), (1, 1 + 1/1110)]
   \<and> interpolate_continuous_coords_global offline_env [[(1, 1), (1, 1 + 1/1000)]] 100
   = Some [(1, 1), (1, 1 + 1/1110)]
   \<and> interpolate_continuous_coords_global offline_env [[(5, 5)]] 100 = Some []
   \<and> (\<exists>i t. Suc i < length [(1, 1), (1, 1 + 1/1000) :: coord]
          \<and> (1, 1 + 1/1110) = lerp ([(1, 1), (1, 1 + 1/1000)] ! i)
                ([(1, 1), (1, 1 + 1/1000)] ! Suc i) t)"
proof -
  have step: "(0::real) < 100" by simp
  have geo: "\<forall>p q. 0 \<le> geodesic offline_env p q"
    by (simp add: offline_env_def flat_metres_nonneg)
  note T = islands_are_resampled_independently [of offline_env "[]" "[]" 100
      "[[(0, 0), (0, 1/1000)], [(5, 5)], [(1, 1), (1, 1 + 1/1000)]]"]
  have one: "interpolate_continuous_coords_global offline_env [[(5, 5)]] 100 = Some []"
    using T by simp
  have all: "interpolate_continuous_coords_global offline_env
       [[(0, 0), (0, 1/1000)], [(5, 5)], [(1, 1), (1, 1 + 1/1000)]] 100 =
     Some (concat (map (\<lambda>seg. the (interpolate_continuous_coords_global offline_env [seg] 100))
       [[(0, 0), (0, 1/1000)], [(5, 5)], [(1, 1), (1, 1 + 1/1000)]]))"
    using T step geo by blast
  have "interpolate_continuous_coords_global offline_env
     [[(0, 0), (0, 1/1000)], [(5, 5)], [(1, 1), (1, 1 + 1/1000)]] 100
   = Some [(0, 0), (0, 1/1110), (1, 1), (1, 1 + 1/1110)]"
    using all one one_island_example [of 0 0] one_island_example [of 1 1] by simp
  moreover have "\<exists>i t. Suc i < length [(1, 1), (1, 1 + 1/1000) :: coord]
          \<and> (1, 1 + 1/1110) = lerp ([(1, 1), (1, 1 + 1/1000)] ! i)
                ([(1, 1), (1, 1 + 1/1000)] ! Suc i) t"
  proof -
    have "2 \<le> length [(1, 1), (1, 1 + 1/1000) :: coord]
        \<and> interpolate_continuous_coords_global offline_env [[(1, 1), (1, 1 + 1/1000)]] 100
          = Some [(1, 1), (1, 1 + 1/1110)]"
      using one_island_example [of 1 1] by simp
    with T obtain pts where
      pts: "[(1, 1), (1, 1 + 1/1110)] = hd [(1, 1), (1, 1 + 1/1000) :: coord] # pts"
      "\<forall>q \<in> set pts. \<exists>i t. Suc i < length [(1, 1), (1, 1 + 1/1000) :: coord]
          \<and> q = lerp ([(1, 1), (1, 1 + 1/1000)] ! i) ([(1, 1), (1, 1 + 1/1000)] ! Suc i) t"
      by blast
    from pts(1) have "pts = [(1, 1 + 1/1110)]" by simp
    then have "(1, 1 + 1/1110) \<in> set pts" by simp
    with pts(2) show ?thesis by blast
  qed
  ultimately show ?thesis using one one_island_example [of 1 1] by simp
qed

end
